theory Spec2Isabelle
  imports Main "HOL-Library.AList"
begin

section \<open>The Redis store, as far as the limiter uses it\<close>

text \<open>
  The limiter of \<^verbatim>\<open>src/index.ts\<close> keeps no state of its own: everything lives in
  Redis, under one key per identifier, as a sorted set of (member, score) pairs with an
  optional expiry. The store is modelled by the commands the limiter issues, with the
  behaviour the Redis documentation gives them:

  \<^item> a key whose expiry time lies in the past is not seen by any command;
  \<^item> a sorted set that loses its last member is deleted together with its expiry;
  \<^item> \<^verbatim>\<open>ZADD\<close> of a member that is already present only changes its score;
  \<^item> \<^verbatim>\<open>PTTL\<close> answers \<open>-2\<close> for a missing key, \<open>-1\<close> for a key without expiry and
    the remaining milliseconds otherwise;
  \<^item> \<^verbatim>\<open>PEXPIRE\<close> of a missing key does nothing, and a timeout that is not positive
    deletes the key.

  Numbers are JavaScript numbers in the source; the model uses \<open>int\<close>, so non-integral
  values and \<open>NaN\<close> are outside of it. The store is taken to be reliable (no command
  fails), and one call of the limiter happens at one instant \<open>now\<close>, which is both the
  value of \<^verbatim>\<open>Date.now()\<close> and the server's clock for the commands of that call.
\<close>

record zset =
  members :: "(string \<times> int) list"
  expireAt :: "int option"

type_synonym redis = "string \<Rightarrow> zset option"

datatype command =
    ZREMRANGEBYSCORE string int int
  | ZCARD string
  | PTTL string
  | ZADD string int string
  | PEXPIRE string int
  | DEL string

definition lookupKey :: "int \<Rightarrow> redis \<Rightarrow> string \<Rightarrow> zset option" where
  "lookupKey t r k =
     (case r k of
        None \<Rightarrow> None
      | Some z \<Rightarrow>
          (case expireAt z of
             None \<Rightarrow> Some z
           | Some e \<Rightarrow> if e < t then None else Some z))"

definition zremrangebyscore :: "int \<Rightarrow> redis \<Rightarrow> string \<Rightarrow> int \<Rightarrow> int \<Rightarrow> int \<times> redis" where
  "zremrangebyscore t r k lo hi =
     (case lookupKey t r k of
        None \<Rightarrow> (0, r(k := None))
      | Some z \<Rightarrow>
          (let keep = filter (\<lambda>(m, s). \<not> (lo \<le> s \<and> s \<le> hi)) (members z);
               removed = int (length (members z)) - int (length keep)
           in if keep = [] then (removed, r(k := None))
              else (removed, r(k \<mapsto> z\<lparr>members := keep\<rparr>))))"

definition zcard :: "int \<Rightarrow> redis \<Rightarrow> string \<Rightarrow> int" where
  "zcard t r k =
     (case lookupKey t r k of None \<Rightarrow> 0 | Some z \<Rightarrow> int (length (members z)))"

definition pttl :: "int \<Rightarrow> redis \<Rightarrow> string \<Rightarrow> int" where
  "pttl t r k =
     (case lookupKey t r k of
        None \<Rightarrow> - 2
      | Some z \<Rightarrow> (case expireAt z of None \<Rightarrow> - 1 | Some e \<Rightarrow> e - t))"

definition zadd :: "int \<Rightarrow> redis \<Rightarrow> string \<Rightarrow> int \<Rightarrow> string \<Rightarrow> int \<times> redis" where
  "zadd t r k score member =
     (case lookupKey t r k of
        None \<Rightarrow> (1, r(k \<mapsto> \<lparr>members = [(member, score)], expireAt = None\<rparr>))
      | Some z \<Rightarrow>
          (if member \<in> fst ` set (members z) then 0 else 1,
           r(k \<mapsto> z\<lparr>members := AList.update member score (members z)\<rparr>)))"

definition pexpire :: "int \<Rightarrow> redis \<Rightarrow> string \<Rightarrow> int \<Rightarrow> int \<times> redis" where
  "pexpire t r k ms =
     (case lookupKey t r k of
        None \<Rightarrow> (0, r(k := None))
      | Some z \<Rightarrow>
          (if ms \<le> 0 then (1, r(k := None))
           else (1, r(k \<mapsto> z\<lparr>expireAt := Some (t + ms)\<rparr>))))"

definition del :: "int \<Rightarrow> redis \<Rightarrow> string \<Rightarrow> int \<times> redis" where
  "del t r k = (case lookupKey t r k of None \<Rightarrow> (0, r(k := None)) | Some z \<Rightarrow> (1, r(k := None)))"

fun run_command :: "int \<Rightarrow> command \<Rightarrow> redis \<Rightarrow> int \<times> redis" where
  "run_command t (ZREMRANGEBYSCORE k lo hi) r = zremrangebyscore t r k lo hi"
| "run_command t (ZCARD k) r = (zcard t r k, r)"
| "run_command t (PTTL k) r = (pttl t r k, r)"
| "run_command t (ZADD k score member) r = zadd t r k score member"
| "run_command t (PEXPIRE k ms) r = pexpire t r k ms"
| "run_command t (DEL k) r = del t r k"

text \<open>
  \<^verbatim>\<open>multi() ... exec()\<close>: the queued commands run one after the other with nothing in
  between, and the replies come back in order.
\<close>

fun exec :: "int \<Rightarrow> command list \<Rightarrow> redis \<Rightarrow> int list \<times> redis" where
  "exec t [] r = ([], r)"
| "exec t (c # cs) r =
     (case run_command t c r of
        (v, r1) \<Rightarrow> (case exec t cs r1 of (vs, r2) \<Rightarrow> (v # vs, r2)))"

section \<open>JavaScript helpers\<close>

text \<open>
  \<^verbatim>\<open>results?.[i]?.[1]\<close> is \<open>undefined\<close> when the reply is missing; \<^verbatim>\<open>x || d\<close> takes
  \<open>d\<close> when \<open>x\<close> is falsy, which for a number is \<open>0\<close> (and \<open>undefined\<close>), and for a
  string is the empty string.
\<close>

definition reply_at :: "int list \<Rightarrow> nat \<Rightarrow> int option" where
  "reply_at results i = (if i < length results then Some (results ! i) else None)"

definition num_or :: "int option \<Rightarrow> int \<Rightarrow> int" where
  "num_or x d = (case x of None \<Rightarrow> d | Some v \<Rightarrow> if v = 0 then d else v)"

definition str_or :: "string option \<Rightarrow> string \<Rightarrow> string" where
  "str_or x d = (case x of None \<Rightarrow> d | Some v \<Rightarrow> if v = [] then d else v)"

text \<open>Decimal rendering of the integers that are spliced into the member token.\<close>

definition digit_char :: "nat \<Rightarrow> char" where
  "digit_char d = char_of (48 + d)"

fun string_of_nat :: "nat \<Rightarrow> string" where
  "string_of_nat n =
     (if n < 10 then [digit_char n]
      else string_of_nat (n div 10) @ [digit_char (n mod 10)])"

declare string_of_nat.simps [simp del]

definition string_of_int :: "int \<Rightarrow> string" where
  "string_of_int i =
     (if i < 0 then CHR ''-'' # string_of_nat (nat (- i)) else string_of_nat (nat i))"

section \<open>The limiter\<close>

datatype error = InvalidConfiguration | StoreUnavailable

record RateLimitResult =
  allowed :: bool
  remaining :: int
  total_limit :: int
  resetAt :: int

record RateLimiterOptions =
  opt_windowMs :: "int option"
  opt_max :: "int option"
  opt_keyPrefix :: "string option"

record RateLimiter =
  windowMs :: int
  max_limit :: int
  keyPrefix :: string

text \<open>
  \<open>resetAt\<close> is a \<^verbatim>\<open>Date\<close> in the source and its millisecond timestamp here. The
  \<^verbatim>\<open>redis\<close> handle of the options and of the limiter is not a field of the records: the
  store is passed to every operation and returned by it. \<open>max\<close> and \<open>total\<close> are named
  \<open>max_limit\<close> and \<open>total_limit\<close>.

  The source has no \<^verbatim>\<open>throw\<close>: with a reliable store every operation returns. The
  operations are typed with a sum all the same, so that "returns normally" and "is
  rejected with an error" are statements about the value.
\<close>

definition "constructor" :: "RateLimiterOptions \<Rightarrow> error + RateLimiter" where
  "constructor options =
     Inr \<lparr>windowMs = num_or (opt_windowMs options) 60000,
          max_limit = num_or (opt_max options) 100,
          keyPrefix = str_or (opt_keyPrefix options) ''rl:''\<rparr>"

definition getKey :: "RateLimiter \<Rightarrow> string \<Rightarrow> string" where
  "getKey L identifier = keyPrefix L @ identifier"

definition check :: "RateLimiter \<Rightarrow> redis \<Rightarrow> int \<Rightarrow> string \<Rightarrow> error + (RateLimitResult \<times> redis)" where
  "check L r now identifier =
     (let key = getKey L identifier;
          windowStart = now - windowMs L
      in case exec now [ZREMRANGEBYSCORE key 0 windowStart, ZCARD key, PTTL key] r of
           (results, r1) \<Rightarrow>
             (let count = num_or (reply_at results 1) 0;
                  ttl = num_or (reply_at results 2) (windowMs L);
                  remaining = max 0 (max_limit L - count);
                  resetAt = now + max ttl 0
              in Inr (\<lparr>allowed = count < max_limit L,
                       remaining = remaining,
                       total_limit = max_limit L,
                       resetAt = resetAt\<rparr>, r1)))"

text \<open>
  The member of the \<open>i\<close>-th entry is \<^verbatim>\<open>`${now}-${i}-${Math.random()}`\<close>. The random
  source is an input of the model: \<open>rnd i\<close> is the rendered value of the \<open>i\<close>-th call of
  \<^verbatim>\<open>Math.random()\<close> in this call of \<open>consume\<close>. \<open>addLoop\<close> is the \<^verbatim>\<open>for\<close> loop that
  queues the \<^verbatim>\<open>ZADD\<close> commands, started at \<open>i = 0\<close>. The cost is always given; the
  source's default is \<open>1\<close>.
\<close>

definition token :: "int \<Rightarrow> nat \<Rightarrow> string \<Rightarrow> string" where
  "token now i rand = string_of_int now @ ''-'' @ string_of_nat i @ ''-'' @ rand"

function addLoop :: "string \<Rightarrow> int \<Rightarrow> (nat \<Rightarrow> string) \<Rightarrow> int \<Rightarrow> nat \<Rightarrow> command list" where
  "addLoop key now rnd cost i =
     (if int i < cost
      then ZADD key (now + int i) (token now i (rnd i)) # addLoop key now rnd cost (Suc i)
      else [])"
  by pat_completeness auto
termination
  by (relation "measure (\<lambda>(key, now, rnd, cost, i). nat cost - i)") auto

declare addLoop.simps [simp del]

definition consume ::
  "RateLimiter \<Rightarrow> redis \<Rightarrow> int \<Rightarrow> string \<Rightarrow> int \<Rightarrow> (nat \<Rightarrow> string) \<Rightarrow> error + (RateLimitResult \<times> redis)" where
  "consume L r now identifier cost rnd =
     (let key = getKey L identifier;
          windowStart = now - windowMs L
      in case exec now [ZREMRANGEBYSCORE key 0 windowStart, ZCARD key] r of
           (results, r1) \<Rightarrow>
             (let currentCount = num_or (reply_at results 1) 0
              in if currentCount \<ge> max_limit L
                 then (case run_command now (PTTL key) r1 of
                         (ttl, r2) \<Rightarrow>
                           Inr (\<lparr>allowed = False,
                                 remaining = 0,
                                 total_limit = max_limit L,
                                 resetAt = now + max ttl 0\<rparr>, r2))
                 else (case exec now (addLoop key now rnd cost 0 @ [PEXPIRE key (windowMs L)]) r1 of
                         (added, r2) \<Rightarrow>
                           (let remaining = max 0 (max_limit L - currentCount - cost)
                            in Inr (\<lparr>allowed = True,
                                     remaining = remaining,
                                     total_limit = max_limit L,
                                     resetAt = now + windowMs L\<rparr>, r2)))))"

definition reset :: "RateLimiter \<Rightarrow> redis \<Rightarrow> int \<Rightarrow> string \<Rightarrow> error + (unit \<times> redis)" where
  "reset L r now identifier =
     (case run_command now (DEL (getKey L identifier)) r of (n, r1) \<Rightarrow> Inr ((), r1))"


section \<open>Notions used to state the properties\<close>

text \<open>
  What a client can observe of a key at time \<open>t\<close>: its entries (none for a missing or
  expired key) and, through \<open>pttl\<close>, its expiry. \<open>trimmed\<close> is the store after the
  first command of \<open>check\<close> and \<open>consume\<close>, and \<open>countAfterTrim\<close> the count both
  read from it.
\<close>

definition entries :: "int \<Rightarrow> redis \<Rightarrow> string \<Rightarrow> (string \<times> int) list" where
  "entries t r k = (case lookupKey t r k of None \<Rightarrow> [] | Some z \<Rightarrow> members z)"

definition trimmed :: "RateLimiter \<Rightarrow> redis \<Rightarrow> int \<Rightarrow> string \<Rightarrow> redis" where
  "trimmed L r now identifier =
     snd (run_command now (ZREMRANGEBYSCORE (getKey L identifier) 0 (now - windowMs L)) r)"

definition countAfterTrim :: "RateLimiter \<Rightarrow> redis \<Rightarrow> int \<Rightarrow> string \<Rightarrow> int" where
  "countAfterTrim L r now identifier = zcard now (trimmed L r now identifier) (getKey L identifier)"

definition newEntries :: "int \<Rightarrow> (nat \<Rightarrow> string) \<Rightarrow> int \<Rightarrow> (string \<times> int) list" where
  "newEntries now rnd cost = map (\<lambda>i. (token now i (rnd i), now + int i)) [0..<nat cost]"

definition expiryOf :: "int \<Rightarrow> redis \<Rightarrow> string \<Rightarrow> int option" where
  "expiryOf t r k = (case lookupKey t r k of None \<Rightarrow> None | Some z \<Rightarrow> expireAt z)"

text \<open>
  Sequential calls of \<open>consume\<close> with cost \<open>1\<close> for one identifier, each with its own time
  and random source, the store of one call being handed to the next; and the results such
  a sequence is expected to give when \<open>n\<close> entries are recorded and the expiry is \<open>e\<close>.
\<close>

fun consumeSeq ::
  "RateLimiter \<Rightarrow> redis \<Rightarrow> string \<Rightarrow> (int \<times> (nat \<Rightarrow> string)) list \<Rightarrow>
     error + (RateLimitResult list \<times> redis)" where
  "consumeSeq L r identifier [] = Inr ([], r)"
| "consumeSeq L r identifier (c # calls) =
     (case consume L r (fst c) identifier 1 (snd c) of
        Inl err \<Rightarrow> Inl err
      | Inr (res, r1) \<Rightarrow>
          (case consumeSeq L r1 identifier calls of
             Inl err \<Rightarrow> Inl err
           | Inr (ress, r2) \<Rightarrow> Inr (res # ress, r2)))"

fun expected :: "int \<Rightarrow> int \<Rightarrow> nat \<Rightarrow> int \<Rightarrow> int list \<Rightarrow> RateLimitResult list" where
  "expected m w n e [] = []"
| "expected m w n e (t # ts) =
     (if int n < m
      then \<lparr>allowed = True, remaining = m - int n - 1, total_limit = m, resetAt = t + w\<rparr>
             # expected m w (Suc n) (t + w) ts
      else \<lparr>allowed = False, remaining = 0, total_limit = m, resetAt = e\<rparr>
             # expected m w n e ts)"

text \<open>The value an operation returns to its caller, without the store.\<close>

definition outcome :: "error + ('a \<times> redis) \<Rightarrow> error + 'a" where
  "outcome x = map_sum id fst x"

section \<open>Member tokens\<close>

lemma of_char_digit_char: "d < 10 \<Longrightarrow> (of_char (digit_char d) :: nat) = 48 + d"
  by (simp add: digit_char_def)

lemma digit_char_inj: "a < 10 \<Longrightarrow> b < 10 \<Longrightarrow> digit_char a = digit_char b \<Longrightarrow> a = b"
proof -
  assume a: "a < 10" and b: "b < 10" and e: "digit_char a = digit_char b"
  from e have "(of_char (digit_char a) :: nat) = of_char (digit_char b)" by simp
  with a b show "a = b" by (simp add: of_char_digit_char)
qed

lemma digit_char_not_dash: "d < 10 \<Longrightarrow> digit_char d \<noteq> CHR ''-''"
proof
  assume d: "d < 10" and e: "digit_char d = CHR ''-''"
  from e have "(of_char (digit_char d) :: nat) = of_char (CHR ''-'')" by simp
  with d show False by (simp add: of_char_digit_char)
qed

lemma string_of_nat_not_Nil: "string_of_nat n \<noteq> []"
  by (subst string_of_nat.simps) simp

lemma dash_notin_string_of_nat: "CHR ''-'' \<notin> set (string_of_nat n)"
proof (induction n rule: string_of_nat.induct)
  case (1 n)
  show ?case
  proof (cases "n < 10")
    case True
    then show ?thesis
      using digit_char_not_dash [of n] by (subst string_of_nat.simps) auto
  next
    case False
    have "n mod 10 < 10" by simp
    then have "digit_char (n mod 10) \<noteq> CHR ''-''" by (rule digit_char_not_dash)
    with False 1 show ?thesis
      by (subst string_of_nat.simps) auto
  qed
qed

lemma string_of_nat_inj: "string_of_nat n = string_of_nat m \<Longrightarrow> n = m"
proof (induction n arbitrary: m rule: string_of_nat.induct)
  case (1 n)
  show ?case
  proof (cases "n < 10")
    case n: True
    show ?thesis
    proof (cases "m < 10")
      case True
      with n 1(2) show ?thesis
        by (simp add: string_of_nat.simps [of n] string_of_nat.simps [of m] digit_char_inj)
    next
      case False
      with n 1(2) string_of_nat_not_Nil [of "m div 10"] show ?thesis
        by (simp add: string_of_nat.simps [of n] string_of_nat.simps [of m])
    qed
  next
    case n: False
    show ?thesis
    proof (cases "m < 10")
      case True
      with n 1(2) string_of_nat_not_Nil [of "n div 10"] show ?thesis
        by (simp add: string_of_nat.simps [of n] string_of_nat.simps [of m])
    next
      case False
      with n 1(2) have e: "string_of_nat (n div 10) = string_of_nat (m div 10)"
        and d: "digit_char (n mod 10) = digit_char (m mod 10)"
        by (simp_all add: string_of_nat.simps [of n] string_of_nat.simps [of m])
      from 1(1) [OF n e] have "n div 10 = m div 10" .
      moreover from d have "n mod 10 = m mod 10" by (auto intro: digit_char_inj)
      ultimately show ?thesis by (metis div_mult_mod_eq)
    qed
  qed
qed

lemma append_sep_eq:
  assumes "xs @ c # ys = xs' @ c # ys'" and "c \<notin> set xs" and "c \<notin> set xs'"
  shows "xs = xs'"
  using assms
proof (induction xs arbitrary: xs')
  case Nil
  then show ?case by (cases xs') auto
next
  case (Cons a xs)
  then show ?case by (cases xs') auto
qed

lemma token_inj_index: "token now i s = token now j s' \<Longrightarrow> i = j"
proof -
  assume "token now i s = token now j s'"
  then have "string_of_nat i @ CHR ''-'' # s = string_of_nat j @ CHR ''-'' # s'"
    by (simp add: token_def)
  then have "string_of_nat i = string_of_nat j"
    by (rule append_sep_eq) (rule dash_notin_string_of_nat)+
  then show "i = j" by (rule string_of_nat_inj)
qed

section \<open>The store commands and the two batches\<close>

lemma num_or_Some_0 [simp]: "num_or (Some v) 0 = v"
  by (simp add: num_or_def)

lemma exec_Cons:
  "exec t (c # cs) r =
     (fst (run_command t c r) # fst (exec t cs (snd (run_command t c r))),
      snd (exec t cs (snd (run_command t c r))))"
  by (simp add: case_prod_beta)

lemma zcard_entries: "zcard t r k = int (length (entries t r k))"
  by (simp add: zcard_def entries_def split: option.splits)

lemma lookupKey_upd_same:
  "lookupKey t (r(k := v)) k =
     (case v of None \<Rightarrow> None
      | Some z \<Rightarrow> (case expireAt z of None \<Rightarrow> Some z | Some e \<Rightarrow> if e < t then None else Some z))"
  by (simp add: lookupKey_def)

lemma lookupKey_upd_other: "k' \<noteq> k \<Longrightarrow> lookupKey t (r(k := v)) k' = lookupKey t r k'"
  by (simp add: lookupKey_def)

lemma lookupKey_Some_D:
  "lookupKey t r k = Some z \<Longrightarrow> r k = Some z \<and> (\<forall>e. expireAt z = Some e \<longrightarrow> t \<le> e)"
  by (auto simp: lookupKey_def split: option.splits if_splits)

lemma lookupKey_trimmed:
  "lookupKey now (trimmed L r now identifier) (getKey L identifier) =
     trimmed L r now identifier (getKey L identifier)"
  by (auto simp: trimmed_def zremrangebyscore_def lookupKey_def Let_def
           split: option.splits if_splits)

lemma trimmed_other: "k \<noteq> getKey L identifier \<Longrightarrow> trimmed L r now identifier k = r k"
  by (auto simp: trimmed_def zremrangebyscore_def Let_def split: option.splits)

lemma entries_trimmed:
  "entries now (trimmed L r now identifier) (getKey L identifier) =
     filter (\<lambda>(m, s). \<not> (0 \<le> s \<and> s \<le> now - windowMs L)) (entries now r (getKey L identifier))"
  by (auto simp: entries_def trimmed_def zremrangebyscore_def lookupKey_def Let_def
           split: option.splits if_splits)

lemma trimmed_members_not_Nil:
  "trimmed L r now identifier (getKey L identifier) = Some z \<Longrightarrow> members z \<noteq> []"
  by (auto simp: trimmed_def zremrangebyscore_def lookupKey_def Let_def
           split: option.splits if_splits)

lemma check_unfold:
  "check L r now identifier =
     Inr (\<lparr>allowed = countAfterTrim L r now identifier < max_limit L,
           remaining = max 0 (max_limit L - countAfterTrim L r now identifier),
           total_limit = max_limit L,
           resetAt = now + max (num_or (Some (pttl now (trimmed L r now identifier) (getKey L identifier)))
                                  (windowMs L)) 0\<rparr>,
          trimmed L r now identifier)"
  by (simp add: check_def countAfterTrim_def trimmed_def reply_at_def Let_def case_prod_beta)

lemma consume_reject:
  "max_limit L \<le> countAfterTrim L r now identifier \<Longrightarrow>
   consume L r now identifier cost rnd =
     Inr (\<lparr>allowed = False, remaining = 0, total_limit = max_limit L,
           resetAt = now + max (pttl now (trimmed L r now identifier) (getKey L identifier)) 0\<rparr>,
          trimmed L r now identifier)"
  by (simp add: consume_def countAfterTrim_def trimmed_def reply_at_def Let_def case_prod_beta)

lemma consume_admit:
  "countAfterTrim L r now identifier < max_limit L \<Longrightarrow>
   consume L r now identifier cost rnd =
     Inr (\<lparr>allowed = True,
           remaining = max 0 (max_limit L - countAfterTrim L r now identifier - cost),
           total_limit = max_limit L,
           resetAt = now + windowMs L\<rparr>,
          snd (exec now (addLoop (getKey L identifier) now rnd cost 0 @
                         [PEXPIRE (getKey L identifier) (windowMs L)])
                 (trimmed L r now identifier)))"
  by (simp add: consume_def countAfterTrim_def trimmed_def reply_at_def Let_def case_prod_beta)

lemma addLoop_from:
  "addLoop key now rnd cost i =
     map (\<lambda>j. ZADD key (now + int j) (token now j (rnd j))) [i..<nat cost]"
proof (induction key now rnd cost i rule: addLoop.induct)
  case (1 key now rnd cost i)
  show ?case
  proof (cases "int i < cost")
    case True
    then have "i < nat cost" by simp
    then have "[i..<nat cost] = i # [Suc i..<nat cost]" by (rule upt_conv_Cons)
    with True 1 show ?thesis by (subst addLoop.simps) simp
  next
    case False
    then show ?thesis by (subst addLoop.simps) simp
  qed
qed

lemma addLoop_newEntries:
  "addLoop key now rnd cost 0 = map (\<lambda>(m, s). ZADD key s m) (newEntries now rnd cost)"
  by (simp add: addLoop_from newEntries_def)

lemma snd_exec_append: "snd (exec t (cs @ ds) r) = snd (exec t ds (snd (exec t cs r)))"
  by (induction cs arbitrary: r) (simp_all add: case_prod_beta)

lemma outcome_Inr [simp]: "outcome (Inr (a, r)) = Inr a"
  by (simp add: outcome_def)

lemma trimmed_absent: "r (getKey L identifier) = None \<Longrightarrow> trimmed L r now identifier = r"
  by (auto simp: trimmed_def zremrangebyscore_def lookupKey_def)

lemma entries_absent: "r k = None \<Longrightarrow> entries t r k = []"
  by (simp add: entries_def lookupKey_def)

lemma pttl_absent: "r k = None \<Longrightarrow> pttl t r k = - 2"
  by (simp add: pttl_def lookupKey_def)

lemma countAfterTrim_absent:
  "r (getKey L identifier) = None \<Longrightarrow> countAfterTrim L r now identifier = 0"
  by (simp add: countAfterTrim_def trimmed_absent zcard_entries entries_absent)

lemma countAfterTrim_nonneg: "0 \<le> countAfterTrim L r now identifier"
  by (simp add: countAfterTrim_def zcard_entries)

text \<open>Nothing is trimmed when every score is still inside the window (or negative).\<close>

lemma trimmed_keep_all:
  assumes "lookupKey now r (getKey L identifier) = Some z"
    and "members z \<noteq> []"
    and "\<forall>(m, s) \<in> set (members z). s < 0 \<or> now - windowMs L < s"
  shows "trimmed L r now identifier = r"
proof -
  from assms(3)
  have "filter (\<lambda>(m, s). \<not> (0 \<le> s \<and> s \<le> now - windowMs L)) (members z) = members z"
    by (auto simp: filter_id_conv)
  moreover from lookupKey_Some_D [OF assms(1)] have "r (getKey L identifier) = Some z"
    by simp
  ultimately show ?thesis using assms(1,2)
    by (auto simp: trimmed_def zremrangebyscore_def Let_def)
qed

lemma pttl_trimmed_negative:
  "(pttl now (trimmed L r now identifier) (getKey L identifier) < 0) =
     (case trimmed L r now identifier (getKey L identifier) of
        None \<Rightarrow> True | Some z \<Rightarrow> expireAt z = None)"
proof -
  let ?r = "trimmed L r now identifier" and ?k = "getKey L identifier"
  have l: "lookupKey now ?r ?k = ?r ?k" by (rule lookupKey_trimmed)
  show ?thesis
  proof (cases "?r ?k")
    case None
    then show ?thesis by (simp add: pttl_absent)
  next
    case (Some z)
    with l have "lookupKey now ?r ?k = Some z" by simp
    from lookupKey_Some_D [OF this] Some show ?thesis
      by (auto simp: pttl_def l split: option.splits)
  qed
qed

section \<open>The write batch of an admitted \<open>consume\<close>\<close>

lemma update_fresh: "m \<notin> fst ` set al \<Longrightarrow> AList.update m s al = al @ [(m, s)]"
  by (induction al) auto

lemma zadd_fresh:
  assumes "m \<notin> fst ` set (entries t r k)"
  shows "snd (zadd t r k s m) =
           r(k \<mapsto> \<lparr>members = entries t r k @ [(m, s)], expireAt = expiryOf t r k\<rparr>)"
proof (cases "lookupKey t r k")
  case None
  then show ?thesis by (simp add: zadd_def entries_def expiryOf_def)
next
  case (Some z)
  with assms have "m \<notin> fst ` set (members z)" by (simp add: entries_def)
  then have "AList.update m s (members z) = members z @ [(m, s)]" by (rule update_fresh)
  with Some show ?thesis by (cases z) (simp add: zadd_def entries_def expiryOf_def)
qed

lemma lookupKey_live_upd:
  "lookupKey t (r(k \<mapsto> \<lparr>members = es, expireAt = expiryOf t r k\<rparr>)) k =
     Some \<lparr>members = es, expireAt = expiryOf t r k\<rparr>"
proof (cases "lookupKey t r k")
  case None
  then show ?thesis by (simp add: lookupKey_upd_same expiryOf_def)
next
  case (Some z)
  from lookupKey_Some_D [OF this] Some show ?thesis
    by (auto simp: lookupKey_upd_same expiryOf_def split: option.splits)
qed

lemma entries_live_upd:
  "entries t (r(k \<mapsto> \<lparr>members = es, expireAt = expiryOf t r k\<rparr>)) k = es"
  by (simp add: entries_def lookupKey_live_upd)

lemma expiryOf_live_upd:
  "expiryOf t (r(k \<mapsto> \<lparr>members = es, expireAt = expiryOf t r k\<rparr>)) k = expiryOf t r k"
  by (simp add: expiryOf_def [of t "r(k \<mapsto> _)"] lookupKey_live_upd)

lemma exec_zadds:
  assumes "distinct (map fst ps)"
    and "fst ` set ps \<inter> fst ` set (entries t r k) = {}"
  shows "snd (exec t (map (\<lambda>(m, s). ZADD k s m) ps) r) =
           (if ps = [] then r
            else r(k \<mapsto> \<lparr>members = entries t r k @ ps, expireAt = expiryOf t r k\<rparr>))"
  using assms
proof (induction ps arbitrary: r)
  case Nil
  then show ?case by simp
next
  case (Cons p ps)
  obtain m s where p: "p = (m, s)" by (cases p)
  let ?r1 = "r(k \<mapsto> \<lparr>members = entries t r k @ [(m, s)], expireAt = expiryOf t r k\<rparr>)"
  from Cons.prems p have fresh: "m \<notin> fst ` set (entries t r k)" by auto
  then have step: "snd (zadd t r k s m) = ?r1" by (rule zadd_fresh)
  have e1: "entries t ?r1 k = entries t r k @ [(m, s)]" by (rule entries_live_upd)
  have x1: "expiryOf t ?r1 k = expiryOf t r k" by (rule expiryOf_live_upd)
  from Cons.prems p have d: "distinct (map fst ps)" by simp
  from Cons.prems p have "fst ` set ps \<inter> fst ` set (entries t ?r1 k) = {}"
    by (auto simp: e1)
  from Cons.IH [OF d this]
  have ih: "snd (exec t (map (\<lambda>(m, s). ZADD k s m) ps) ?r1) =
           (if ps = [] then ?r1
            else ?r1(k \<mapsto> \<lparr>members = entries t ?r1 k @ ps, expireAt = expiryOf t ?r1 k\<rparr>))" .
  have "snd (exec t (map (\<lambda>(m, s). ZADD k s m) (p # ps)) r) =
        snd (exec t (map (\<lambda>(m, s). ZADD k s m) ps) ?r1)"
    by (simp add: p exec_Cons step del: exec.simps)
  also note ih
  also have "(if ps = [] then ?r1
            else ?r1(k \<mapsto> \<lparr>members = entries t ?r1 k @ ps, expireAt = expiryOf t ?r1 k\<rparr>)) =
        r(k \<mapsto> \<lparr>members = entries t r k @ p # ps, expireAt = expiryOf t r k\<rparr>)"
    unfolding e1 x1 by (simp add: p)
  finally show ?case by simp
qed

lemma zset_expireAt_update: "z\<lparr>expireAt := e\<rparr> = \<lparr>members = members z, expireAt = e\<rparr>"
  by (cases z) simp

lemma pexpire_live:
  assumes "lookupKey t r k = Some z" and "0 < ms"
  shows "snd (pexpire t r k ms) = r(k \<mapsto> z\<lparr>expireAt := Some (t + ms)\<rparr>)"
  using assms by (simp add: pexpire_def)

lemma pexpire_absent:
  assumes "r k = None"
  shows "snd (pexpire t r k ms) = r"
  using assms by (auto simp: pexpire_def lookupKey_def)

lemma distinct_newEntries: "distinct (map fst (newEntries now rnd cost))"
proof -
  have "inj_on (\<lambda>i. token now i (rnd i)) (set [0..<nat cost])"
    by (rule inj_onI) (rule token_inj_index)
  then show ?thesis by (simp add: newEntries_def comp_def distinct_map)
qed

lemma length_newEntries: "length (newEntries now rnd cost) = nat cost"
  by (simp add: newEntries_def)

lemma trimmed_cases:
  obtains (absent) "trimmed L r now ident (getKey L ident) = None"
      "entries now (trimmed L r now ident) (getKey L ident) = []"
  | (live) z where "trimmed L r now ident (getKey L ident) = Some z"
      "lookupKey now (trimmed L r now ident) (getKey L ident) = Some z"
      "entries now (trimmed L r now ident) (getKey L ident) = members z"
      "members z \<noteq> []"
proof (cases "trimmed L r now ident (getKey L ident)")
  case None
  then show ?thesis by (rule absent) (simp add: entries_absent None)
next
  case (Some z)
  then have l: "lookupKey now (trimmed L r now ident) (getKey L ident) = Some z"
    by (simp add: lookupKey_trimmed)
  show ?thesis
  proof (rule live)
    show "trimmed L r now ident (getKey L ident) = Some z" by (rule Some)
    show "lookupKey now (trimmed L r now ident) (getKey L ident) = Some z" by (rule l)
    show "entries now (trimmed L r now ident) (getKey L ident) = members z"
      by (simp add: entries_def l)
    show "members z \<noteq> []" using Some by (rule trimmed_members_not_Nil)
  qed
qed

lemma consume_admit_state:
  assumes adm: "countAfterTrim L r now identifier < max_limit L"
    and w: "0 < windowMs L"
    and fresh: "fst ` set (newEntries now rnd cost) \<inter>
                fst ` set (entries now (trimmed L r now identifier) (getKey L identifier)) = {}"
  shows "consume L r now identifier cost rnd =
     Inr (\<lparr>allowed = True,
           remaining = max 0 (max_limit L - countAfterTrim L r now identifier - cost),
           total_limit = max_limit L,
           resetAt = now + windowMs L\<rparr>,
          (let es = entries now (trimmed L r now identifier) (getKey L identifier) @
                    newEntries now rnd cost
           in if es = [] then trimmed L r now identifier
              else (trimmed L r now identifier)
                     (getKey L identifier \<mapsto> \<lparr>members = es, expireAt = Some (now + windowMs L)\<rparr>)))"
proof -
  let ?k = "getKey L identifier" and ?r1 = "trimmed L r now identifier"
  let ?new = "newEntries now rnd cost"
  let ?es = "entries now ?r1 ?k @ ?new"
  let ?r2 = "snd (exec now (map (\<lambda>(m, s). ZADD ?k s m) ?new) ?r1)"
  have r2: "?r2 = (if ?new = [] then ?r1
                   else ?r1(?k \<mapsto> \<lparr>members = ?es, expireAt = expiryOf now ?r1 ?k\<rparr>))"
    using distinct_newEntries fresh by (rule exec_zadds)
  have "snd (pexpire now ?r2 ?k (windowMs L)) =
          (if ?es = [] then ?r1 else ?r1(?k \<mapsto> \<lparr>members = ?es, expireAt = Some (now + windowMs L)\<rparr>))"
  proof (cases "?new = []")
    case True
    show ?thesis
    proof (cases rule: trimmed_cases [where L = L and r = r and now = now and ident = "identifier"])
      case absent
      then show ?thesis by (simp add: r2 True pexpire_absent)
    next
      case (live z)
      from live(2) w have "snd (pexpire now ?r1 ?k (windowMs L)) =
          ?r1(?k \<mapsto> z\<lparr>expireAt := Some (now + windowMs L)\<rparr>)" by (rule pexpire_live)
      with live show ?thesis by (simp add: r2 True zset_expireAt_update)
    qed
  next
    case False
    let ?z = "\<lparr>members = ?es, expireAt = expiryOf now ?r1 ?k\<rparr>"
    have "lookupKey now (?r1(?k \<mapsto> ?z)) ?k = Some ?z" by (rule lookupKey_live_upd)
    from pexpire_live [OF this w] False show ?thesis by (simp add: r2)
  qed
  then show ?thesis
    using adm
    by (simp add: consume_admit addLoop_newEntries snd_exec_append case_prod_beta Let_def)
qed

lemma newEntries_nonpos: "cost \<le> 0 \<Longrightarrow> newEntries now rnd cost = []"
  by (simp add: newEntries_def)

lemma consume_admit_no_entries:
  assumes adm: "countAfterTrim L r now identifier < max_limit L"
    and w: "0 < windowMs L"
    and c: "cost \<le> 0"
  shows "consume L r now identifier cost rnd =
     Inr (\<lparr>allowed = True,
           remaining = max 0 (max_limit L - countAfterTrim L r now identifier - cost),
           total_limit = max_limit L,
           resetAt = now + windowMs L\<rparr>,
          (case trimmed L r now identifier (getKey L identifier) of
             None \<Rightarrow> trimmed L r now identifier
           | Some z \<Rightarrow> (trimmed L r now identifier)
                         (getKey L identifier \<mapsto> z\<lparr>expireAt := Some (now + windowMs L)\<rparr>)))"
proof -
  have n: "newEntries now rnd cost = []" using c by (rule newEntries_nonpos)
  then have "fst ` set (newEntries now rnd cost) \<inter>
             fst ` set (entries now (trimmed L r now identifier) (getKey L identifier)) = {}"
    by simp
  from consume_admit_state [OF adm w this] show ?thesis
    by (cases rule: trimmed_cases [where L = L and r = r and now = now and ident = "identifier"])
       (simp_all add: n zset_expireAt_update)
qed

lemma constructor_value:
  "constructor options =
     Inr \<lparr>windowMs = (case opt_windowMs options of
                         None \<Rightarrow> 60000 | Some w \<Rightarrow> if w = 0 then 60000 else w),
          max_limit = (case opt_max options of
                         None \<Rightarrow> 100 | Some m \<Rightarrow> if m = 0 then 100 else m),
          keyPrefix = (case opt_keyPrefix options of
                         None \<Rightarrow> ''rl:'' | Some p \<Rightarrow> if p = [] then ''rl:'' else p)\<rparr>"
  by (simp add: constructor_def num_or_def str_or_def)

lemma consume_negative_cost:
  assumes "cost < 0"
  shows "consume L r now identifier cost rnd =
     (if countAfterTrim L r now identifier < max_limit L
      then Inr (\<lparr>allowed = True,
                 remaining = max 0 (max_limit L - countAfterTrim L r now identifier - cost),
                 total_limit = max_limit L,
                 resetAt = now + windowMs L\<rparr>,
                snd (exec now [PEXPIRE (getKey L identifier) (windowMs L)]
                       (trimmed L r now identifier)))
      else Inr (\<lparr>allowed = False, remaining = 0, total_limit = max_limit L,
                 resetAt = now + max (pttl now (trimmed L r now identifier) (getKey L identifier)) 0\<rparr>,
                trimmed L r now identifier))"
proof -
  from assms have "addLoop (getKey L identifier) now rnd cost 0 = []"
    by (simp add: addLoop_from)
  then show ?thesis
    by (simp add: consume_admit consume_reject)
qed

text \<open>
  A store in which the record of the identifier is known: absent, or holding the entries
  \<open>es\<close> with the expiry \<open>e\<close>, not yet expired and with every score inside the window.
\<close>

lemma known_state:
  assumes st: "r (getKey L identifier) =
                 (if es = [] then None else Some \<lparr>members = es, expireAt = Some e\<rparr>)"
    and alive: "es \<noteq> [] \<longrightarrow> now \<le> e"
    and inwin: "\<forall>(m, s) \<in> set es. s < 0 \<or> now - windowMs L < s"
  shows "trimmed L r now identifier = r"
    and "entries now r (getKey L identifier) = es"
    and "countAfterTrim L r now identifier = int (length es)"
    and "pttl now r (getKey L identifier) = (if es = [] then - 2 else e - now)"
proof -
  show t: "trimmed L r now identifier = r"
  proof (cases "es = []")
    case True
    with st show ?thesis by (simp add: trimmed_absent)
  next
    case False
    with st alive
    have lk: "lookupKey now r (getKey L identifier) = Some \<lparr>members = es, expireAt = Some e\<rparr>"
      by (simp add: lookupKey_def)
    show ?thesis by (rule trimmed_keep_all [OF lk]) (use False inwin in simp_all)
  qed
  show e: "entries now r (getKey L identifier) = es"
    using st alive by (auto simp: entries_def lookupKey_def)
  show "countAfterTrim L r now identifier = int (length es)"
    by (simp add: countAfterTrim_def t zcard_entries e)
  show "pttl now r (getKey L identifier) = (if es = [] then - 2 else e - now)"
    using st alive by (auto simp: pttl_def lookupKey_def)
qed

lemma consume_known_admit:
  assumes w: "0 < windowMs L"
    and st: "r (getKey L identifier) =
                 (if es = [] then None else Some \<lparr>members = es, expireAt = Some e\<rparr>)"
    and alive: "es \<noteq> [] \<longrightarrow> now \<le> e"
    and inwin: "\<forall>(m, s) \<in> set es. s < 0 \<or> now - windowMs L < s"
    and adm: "int (length es) < max_limit L"
    and fresh: "fst ` set (newEntries now rnd cost) \<inter> fst ` set es = {}"
  shows "consume L r now identifier cost rnd =
     Inr (\<lparr>allowed = True,
           remaining = max 0 (max_limit L - int (length es) - cost),
           total_limit = max_limit L,
           resetAt = now + windowMs L\<rparr>,
          (if es @ newEntries now rnd cost = [] then r
           else r(getKey L identifier \<mapsto>
                    \<lparr>members = es @ newEntries now rnd cost,
                     expireAt = Some (now + windowMs L)\<rparr>)))"
proof -
  note ks = known_state [of r L "identifier" es e now, OF st alive inwin]
  from adm have a: "countAfterTrim L r now identifier < max_limit L" by (simp add: ks)
  from fresh have f: "fst ` set (newEntries now rnd cost) \<inter>
      fst ` set (entries now (trimmed L r now identifier) (getKey L identifier)) = {}"
    by (simp add: ks)
  from consume_admit_state [OF a w f] show ?thesis by (simp add: ks Let_def)
qed

lemma consume_known_reject:
  assumes st: "r (getKey L identifier) = Some \<lparr>members = es, expireAt = Some e\<rparr>"
    and ne: "es \<noteq> []"
    and alive: "now \<le> e"
    and inwin: "\<forall>(m, s) \<in> set es. s < 0 \<or> now - windowMs L < s"
    and full: "max_limit L \<le> int (length es)"
  shows "consume L r now identifier cost rnd =
     Inr (\<lparr>allowed = False, remaining = 0, total_limit = max_limit L, resetAt = e\<rparr>, r)"
proof -
  from st ne have st': "r (getKey L identifier) =
                 (if es = [] then None else Some \<lparr>members = es, expireAt = Some e\<rparr>)" by simp
  from alive have al: "es \<noteq> [] \<longrightarrow> now \<le> e" by simp
  note ks = known_state [of r L "identifier" es e now, OF st' al inwin]
  from full have "max_limit L \<le> countAfterTrim L r now identifier" by (simp add: ks)
  from consume_reject [OF this] ne alive show ?thesis by (simp add: ks)
qed

section \<open>Sequences of calls\<close>

lemma newEntries_one: "newEntries now rnd 1 = [(token now 0 (rnd 0), now)]"
  by (simp add: newEntries_def)

lemma outcome_Inr_D: "outcome x = Inr a \<Longrightarrow> \<exists>r'. x = Inr (a, r')"
  by (cases x) (auto simp: outcome_def)

lemma outcome_consumeSeq_Cons:
  assumes "consume L r (fst c) ident 1 (snd c) = Inr (res, r1)"
    and "outcome (consumeSeq L r1 ident calls) = Inr ress"
  shows "outcome (consumeSeq L r ident (c # calls)) = Inr (res # ress)"
proof -
  from outcome_Inr_D [OF assms(2)] obtain r2 where "consumeSeq L r1 ident calls = Inr (ress, r2)" ..
  with assms(1) show ?thesis by simp
qed

lemma consumeSeq_expected:
  assumes w: "0 < windowMs L" and m: "0 < max_limit L"
    and st: "r (getKey L ident) =
               (if es = [] then None else Some \<lparr>members = es, expireAt = Some e\<rparr>)"
    and alive: "es \<noteq> [] \<longrightarrow> (\<forall>c \<in> set calls. fst c \<le> e)"
    and inwin: "\<forall>c \<in> set calls. \<forall>(m, s) \<in> set es. s < 0 \<or> fst c - windowMs L < s"
    and near: "\<forall>c \<in> set calls. \<forall>c' \<in> set calls. fst c' - windowMs L < fst c"
    and fresh: "\<forall>c \<in> set calls. token (fst c) 0 (snd c 0) \<notin> fst ` set es"
    and dist: "distinct (map (\<lambda>c. token (fst c) 0 (snd c 0)) calls)"
  shows "outcome (consumeSeq L r ident calls) =
           Inr (expected (max_limit L) (windowMs L) (length es) e (map fst calls))"
  using st alive inwin near fresh dist
proof (induction calls arbitrary: r es e)
  case Nil
  show ?case by simp
next
  case (Cons c calls)
  let ?t = "fst c" and ?k = "getKey L ident"
  let ?tok = "token (fst c) 0 (snd c 0)"
  from Cons.prems(2) have al: "es \<noteq> [] \<longrightarrow> ?t \<le> e" by simp
  from Cons.prems(3) have iw: "\<forall>(m, s) \<in> set es. s < 0 \<or> ?t - windowMs L < s" by simp
  show ?case
  proof (cases "int (length es) < max_limit L")
    case True
    let ?es' = "es @ [(?tok, ?t)]"
    let ?r' = "r(?k \<mapsto> \<lparr>members = ?es', expireAt = Some (?t + windowMs L)\<rparr>)"
    from Cons.prems(5) have "fst ` set (newEntries ?t (snd c) 1) \<inter> fst ` set es = {}"
      by (simp add: newEntries_one)
    from consume_known_admit [of L r "ident" es e ?t "snd c" 1, OF w Cons.prems(1) al iw True this]
    have step: "consume L r ?t ident 1 (snd c) =
        Inr (\<lparr>allowed = True, remaining = max_limit L - int (length es) - 1,
              total_limit = max_limit L, resetAt = ?t + windowMs L\<rparr>, ?r')"
      using True by (simp add: newEntries_one)
    have st': "?r' ?k = (if ?es' = [] then None
                         else Some \<lparr>members = ?es', expireAt = Some (?t + windowMs L)\<rparr>)"
      by simp
    have al': "?es' \<noteq> [] \<longrightarrow> (\<forall>c' \<in> set calls. fst c' \<le> ?t + windowMs L)"
      using Cons.prems(4) by force
    have iw': "\<forall>c' \<in> set calls. \<forall>(m, s) \<in> set ?es'. s < 0 \<or> fst c' - windowMs L < s"
      using Cons.prems(3,4) by auto
    have near': "\<forall>a \<in> set calls. \<forall>b \<in> set calls. fst b - windowMs L < fst a"
      using Cons.prems(4) by simp
    have fresh': "\<forall>c' \<in> set calls. token (fst c') 0 (snd c' 0) \<notin> fst ` set ?es'"
    proof
      fix c' assume c': "c' \<in> set calls"
      with Cons.prems(5) have "token (fst c') 0 (snd c' 0) \<notin> fst ` set es" by simp
      moreover from Cons.prems(6) have "?tok \<notin> (\<lambda>c. token (fst c) 0 (snd c 0)) ` set calls"
        by simp
      with c' have "token (fst c') 0 (snd c' 0) \<noteq> ?tok" by (auto simp: image_iff)
      ultimately show "token (fst c') 0 (snd c' 0) \<notin> fst ` set ?es'" by simp
    qed
    have dist': "distinct (map (\<lambda>c. token (fst c) 0 (snd c 0)) calls)"
      using Cons.prems(6) by simp
    have ih: "outcome (consumeSeq L ?r' ident calls) =
            Inr (expected (max_limit L) (windowMs L) (length ?es') (?t + windowMs L)
                   (map fst calls))"
      by (rule Cons.IH [of ?r' ?es' "?t + windowMs L", OF st' al' iw' near' fresh' dist'])
    have len: "length ?es' = Suc (length es)" by simp
    from outcome_consumeSeq_Cons [OF step ih [unfolded len]] True show ?thesis by simp
  next
    case False
    with m have ne: "es \<noteq> []" by auto
    with Cons.prems(1) have st1: "r ?k = Some \<lparr>members = es, expireAt = Some e\<rparr>" by simp
    from al ne have al1: "?t \<le> e" by simp
    from False have full: "max_limit L \<le> int (length es)" by simp
    from consume_known_reject [of r L "ident" es e ?t, OF st1 ne al1 iw full]
    have step: "consume L r ?t ident 1 (snd c) =
        Inr (\<lparr>allowed = False, remaining = 0, total_limit = max_limit L, resetAt = e\<rparr>, r)" .
    have al': "es \<noteq> [] \<longrightarrow> (\<forall>c' \<in> set calls. fst c' \<le> e)"
      using Cons.prems(2) by simp
    have iw': "\<forall>c' \<in> set calls. \<forall>(m, s) \<in> set es. s < 0 \<or> fst c' - windowMs L < s"
      using Cons.prems(3) by simp
    have near': "\<forall>a \<in> set calls. \<forall>b \<in> set calls. fst b - windowMs L < fst a"
      using Cons.prems(4) by simp
    have fresh': "\<forall>c' \<in> set calls. token (fst c') 0 (snd c' 0) \<notin> fst ` set es"
      using Cons.prems(5) by simp
    have dist': "distinct (map (\<lambda>c. token (fst c) 0 (snd c 0)) calls)"
      using Cons.prems(6) by simp
    from Cons.IH [of r es e, OF Cons.prems(1) al' iw' near' fresh' dist']
    have "outcome (consumeSeq L r ident calls) =
            Inr (expected (max_limit L) (windowMs L) (length es) e (map fst calls))" .
    from outcome_consumeSeq_Cons [OF step this] False show ?thesis by simp
  qed
qed

lemma expected_closed_form:
  assumes "n \<le> nat m" and "length ts = nat m - n + 1"
  shows "map allowed (expected m w n e ts) = replicate (nat m - n) True @ [False]
       \<and> map remaining (expected m w n e ts) = map (\<lambda>k. m - 1 - int k) [n..<nat m] @ [0]"
  using assms
proof (induction ts arbitrary: n e)
  case Nil
  then show ?case by simp
next
  case (Cons t ts)
  show ?case
  proof (cases "int n < m")
    case True
    then have lt: "n < nat m" by simp
    then have "Suc n \<le> nat m" and "length ts = nat m - Suc n + 1"
      using Cons.prems by simp_all
    from Cons.IH [OF this]
    have ih: "map allowed (expected m w (Suc n) (t + w) ts) = replicate (nat m - Suc n) True @ [False]
       \<and> map remaining (expected m w (Suc n) (t + w) ts) =
           map (\<lambda>k. m - 1 - int k) [Suc n..<nat m] @ [0]" .
    from lt have r: "replicate (nat m - n) True = True # replicate (nat m - Suc n) True"
      by (simp add: Suc_diff_Suc flip: replicate_Suc)
    from lt have u: "[n..<nat m] = n # [Suc n..<nat m]" by (rule upt_conv_Cons)
    from True ih show ?thesis by (simp add: r u)
  next
    case False
    with Cons.prems have "n = nat m" by simp
    with Cons.prems have "ts = []" by simp
    with False \<open>n = nat m\<close> show ?thesis by simp
  qed
qed

text \<open>Two calls in one window on an unused identifier, with the costs 5 and 6.\<close>

lemma newEntries_not_Nil: "0 < cost \<Longrightarrow> newEntries now rnd cost \<noteq> []"
  by (simp add: newEntries_def)

lemma newEntries_scores: "(m, s) \<in> set (newEntries now rnd cost) \<Longrightarrow> now \<le> s"
  by (auto simp: newEntries_def)

lemma two_consumes_5_6:
  assumes m: "max_limit L = 10" and w: "0 < windowMs L"
    and absent: "r (getKey L ident) = None"
    and near: "t1 \<le> t2" "t2 - windowMs L < t1"
    and fresh: "fst ` set (newEntries t2 rnd2 6) \<inter> fst ` set (newEntries t1 rnd1 5) = {}"
  shows "consume L r t1 ident 5 rnd1 =
           Inr (\<lparr>allowed = True, remaining = 5, total_limit = 10, resetAt = t1 + windowMs L\<rparr>,
                r(getKey L ident \<mapsto>
                    \<lparr>members = newEntries t1 rnd1 5, expireAt = Some (t1 + windowMs L)\<rparr>))"
    and "consume L
           (r(getKey L ident \<mapsto>
                \<lparr>members = newEntries t1 rnd1 5, expireAt = Some (t1 + windowMs L)\<rparr>))
           t2 ident 6 rnd2 =
           Inr (\<lparr>allowed = True, remaining = 0, total_limit = 10, resetAt = t2 + windowMs L\<rparr>,
                r(getKey L ident \<mapsto>
                    \<lparr>members = newEntries t1 rnd1 5 @ newEntries t2 rnd2 6,
                     expireAt = Some (t2 + windowMs L)\<rparr>))"
    and "zcard t2 (r(getKey L ident \<mapsto>
                    \<lparr>members = newEntries t1 rnd1 5, expireAt = Some (t1 + windowMs L)\<rparr>))
           (getKey L ident) = 5"
    and "zcard t2 (r(getKey L ident \<mapsto>
                    \<lparr>members = newEntries t1 rnd1 5 @ newEntries t2 rnd2 6,
                     expireAt = Some (t2 + windowMs L)\<rparr>))
           (getKey L ident) = 11"
proof -
  let ?k = "getKey L ident"
  let ?e1 = "newEntries t1 rnd1 5" and ?e2 = "newEntries t2 rnd2 6"
  let ?r1 = "r(?k \<mapsto> \<lparr>members = ?e1, expireAt = Some (t1 + windowMs L)\<rparr>)"
  have ne1: "?e1 \<noteq> []" by (rule newEntries_not_Nil) simp
  have st0: "r ?k = (if ([] :: (string \<times> int) list) = [] then None
                     else Some \<lparr>members = [], expireAt = Some 0\<rparr>)"
    using absent by simp
  from consume_known_admit [of L r "ident" "[]" 0 t1 rnd1 5, OF w st0] m ne1
  show "consume L r t1 ident 5 rnd1 =
           Inr (\<lparr>allowed = True, remaining = 5, total_limit = 10, resetAt = t1 + windowMs L\<rparr>, ?r1)"
    by simp
  have st1: "?r1 ?k = (if ?e1 = [] then None
                       else Some \<lparr>members = ?e1, expireAt = Some (t1 + windowMs L)\<rparr>)"
    using ne1 by simp
  have al: "?e1 \<noteq> [] \<longrightarrow> t2 \<le> t1 + windowMs L" using near by simp
  have iw: "\<forall>(m, s) \<in> set ?e1. s < 0 \<or> t2 - windowMs L < s"
    using near newEntries_scores [of _ _ t1 rnd1 5] by fastforce
  have adm: "int (length ?e1) < max_limit L" by (simp add: m length_newEntries)
  from consume_known_admit [of L ?r1 "ident" ?e1 "t1 + windowMs L" t2 rnd2 6, OF w st1 al iw adm fresh]
  show "consume L ?r1 t2 ident 6 rnd2 =
           Inr (\<lparr>allowed = True, remaining = 0, total_limit = 10, resetAt = t2 + windowMs L\<rparr>,
                r(?k \<mapsto> \<lparr>members = ?e1 @ ?e2, expireAt = Some (t2 + windowMs L)\<rparr>))"
    using ne1 by (simp add: m length_newEntries)
  show "zcard t2 ?r1 ?k = 5"
    using near by (simp add: zcard_def lookupKey_def length_newEntries)
  show "zcard t2 (r(?k \<mapsto> \<lparr>members = ?e1 @ ?e2, expireAt = Some (t2 + windowMs L)\<rparr>)) ?k = 11"
    using w by (simp add: zcard_def lookupKey_def length_newEntries)
qed

lemma newEntries_example:
  "newEntries 1000 (\<lambda>i. ''0.5'') 5 =
     [(''1000-0-0.5'', 1000), (''1000-1-0.5'', 1001), (''1000-2-0.5'', 1002),
      (''1000-3-0.5'', 1003), (''1000-4-0.5'', 1004)]"
  "newEntries 1001 (\<lambda>i. ''0.75'') 6 =
     [(''1001-0-0.75'', 1001), (''1001-1-0.75'', 1002), (''1001-2-0.75'', 1003),
      (''1001-3-0.75'', 1004), (''1001-4-0.75'', 1005), (''1001-5-0.75'', 1006)]"
  by code_simp+

lemma newEntries_example_disjoint:
  "fst ` set (newEntries 1001 (\<lambda>i. ''0.75'') 6) \<inter> fst ` set (newEntries 1000 (\<lambda>i. ''0.5'') 5) = {}"
  by (simp add: newEntries_example)

section \<open>The reset time reported by \<open>check\<close>\<close>

text \<open>
  C2, as the specification states it: when the store reports an active expiry,
  \<open>resetAt = now + max(ttl, 0)\<close>, and when the record is absent or has no expiry,
  \<open>resetAt = now + windowMs\<close>. The second half fails: for a key that does not exist
  \<^verbatim>\<open>PTTL\<close> answers \<open>-2\<close>, which is truthy, so \<^verbatim>\<open>|| this.windowMs\<close> does not apply and
  \<^verbatim>\<open>Math.max(ttl, 0)\<close> clamps it to \<open>0\<close>. On an empty store, with a window of one minute,
  \<open>check\<close> at time 1000 reports \<open>resetAt = 1000\<close>, not \<open>61000\<close>.
\<close>

theorem check_resetAt_absent_counterexample:
  "pttl 1000 (trimmed \<lparr>windowMs = 60000, max_limit = 10, keyPrefix = ''rl:''\<rparr> (\<lambda>k. None) 1000 ''u'')
     (getKey \<lparr>windowMs = 60000, max_limit = 10, keyPrefix = ''rl:''\<rparr> ''u'') = - 2
   \<and> outcome (check \<lparr>windowMs = 60000, max_limit = 10, keyPrefix = ''rl:''\<rparr> (\<lambda>k. None) 1000 ''u'')
       = Inr \<lparr>allowed = True, remaining = 10, total_limit = 10, resetAt = 1000\<rparr>
   \<and> outcome (check \<lparr>windowMs = 60000, max_limit = 10, keyPrefix = ''rl:''\<rparr> (\<lambda>k. None) 1000 ''u'')
       \<noteq> Inr \<lparr>allowed = True, remaining = 10, total_limit = 10, resetAt = 1000 + 60000\<rparr>"
  by (simp add: check_unfold countAfterTrim_absent trimmed_absent pttl_absent num_or_def)

text \<open>
  C2, amended: with \<open>ttl\<close> the reply of \<^verbatim>\<open>PTTL\<close> after the trim, \<open>resetAt = now + ttl\<close>
  when \<open>ttl > 0\<close>; \<open>resetAt = now\<close> when \<open>ttl\<close> is negative, which is exactly when the
  record is absent or has no expiry; and the window length is substituted only for a
  reply of \<open>0\<close>, where \<open>resetAt = now + max(windowMs, 0)\<close>.
\<close>

theorem check_resetAt_from_ttl:
  "check L r now identifier =
     Inr (\<lparr>allowed = countAfterTrim L r now identifier < max_limit L,
           remaining = max 0 (max_limit L - countAfterTrim L r now identifier),
           total_limit = max_limit L,
           resetAt =
             (let ttl = pttl now (trimmed L r now identifier) (getKey L identifier)
              in if 0 < ttl then now + ttl
                 else if ttl = 0 then now + max (windowMs L) 0
                 else now)\<rparr>,
          trimmed L r now identifier)
   \<and> (pttl now (trimmed L r now identifier) (getKey L identifier) < 0) =
       (case trimmed L r now identifier (getKey L identifier) of
          None \<Rightarrow> True | Some z \<Rightarrow> expireAt z = None)"
  by (simp add: check_unfold pttl_trimmed_negative num_or_def Let_def)

section \<open>Rejection\<close>

text \<open>
  C6: when the count read after the trim has reached \<open>max\<close>, \<open>consume\<close> returns a
  result, not an error, with \<open>allowed = false\<close> and \<open>remaining = 0\<close>, and the store it
  leaves is the store after the trim: the entries and the expiry of the identifier are
  those the trim left.
\<close>

theorem rejected_consume_returns_and_writes_nothing:
  assumes "max_limit L \<le> countAfterTrim L r now identifier"
  shows "consume L r now identifier cost rnd =
           Inr (\<lparr>allowed = False, remaining = 0, total_limit = max_limit L,
                 resetAt = now + max (pttl now (trimmed L r now identifier) (getKey L identifier)) 0\<rparr>,
                trimmed L r now identifier)"
  using assms by (rule consume_reject)

theorem rejected_consume_returns_and_writes_nothing_witness:
  "max_limit \<lparr>windowMs = 1000, max_limit = 1, keyPrefix = ''rl:''\<rparr>
     \<le> countAfterTrim \<lparr>windowMs = 1000, max_limit = 1, keyPrefix = ''rl:''\<rparr>
          ((\<lambda>k. None)(''rl:u'' \<mapsto> \<lparr>members = [(''500-0-0.5'', 500)], expireAt = Some 1500\<rparr>)) 600 ''u''
   \<and> consume \<lparr>windowMs = 1000, max_limit = 1, keyPrefix = ''rl:''\<rparr>
        ((\<lambda>k. None)(''rl:u'' \<mapsto> \<lparr>members = [(''500-0-0.5'', 500)], expireAt = Some 1500\<rparr>)) 600 ''u'' 1
        (\<lambda>i. ''0.25'')
      = Inr (\<lparr>allowed = False, remaining = 0, total_limit = 1, resetAt = 1500\<rparr>,
             (\<lambda>k. None)(''rl:u'' \<mapsto> \<lparr>members = [(''500-0-0.5'', 500)], expireAt = Some 1500\<rparr>))"
proof -
  let ?L = "\<lparr>windowMs = 1000, max_limit = 1, keyPrefix = ''rl:''\<rparr>"
  let ?z = "\<lparr>members = [(''500-0-0.5'', 500)], expireAt = Some 1500\<rparr>"
  let ?r = "(\<lambda>k. None)(''rl:u'' \<mapsto> ?z)"
  have t: "trimmed ?L ?r 600 ''u'' = ?r"
    by (rule trimmed_keep_all [where z = ?z]) (simp_all add: lookupKey_def getKey_def)
  have h: "max_limit ?L \<le> countAfterTrim ?L ?r 600 ''u''"
    by (simp add: countAfterTrim_def t zcard_def lookupKey_def getKey_def)
  from rejected_consume_returns_and_writes_nothing [OF h, of 1 "\<lambda>i. ''0.25''"] h show ?thesis
    by (simp add: t pttl_def lookupKey_def getKey_def)
qed

lemma check_absent:
  assumes "s (getKey L identifier) = None"
  shows "check L s now identifier =
     Inr (\<lparr>allowed = 0 < max_limit L, remaining = max 0 (max_limit L),
           total_limit = max_limit L, resetAt = now\<rparr>, s)"
proof -
  have "trimmed L s now identifier = s" using assms by (rule trimmed_absent)
  moreover have "countAfterTrim L s now identifier = 0" using assms by (rule countAfterTrim_absent)
  moreover have "pttl now s (getKey L identifier) = - 2" using assms by (rule pttl_absent)
  ultimately show ?thesis by (simp add: check_unfold num_or_def)
qed

section \<open>Reset\<close>

text \<open>
  C7: \<open>reset\<close> deletes the record whatever the store holds, also when there is no
  record, and returns without error. With \<open>max > 0\<close>, a \<open>check\<close> after it is allowed with
  \<open>remaining = total = max\<close>, and that is the result of \<open>check\<close> on any store \<open>r0\<close> in
  which the identifier has never been used.
\<close>

theorem reset_then_check_is_fresh:
  assumes "0 < max_limit L"
  shows "reset L r t identifier = Inr ((), r(getKey L identifier := None))
         \<and> check L (r(getKey L identifier := None)) now identifier =
             Inr (\<lparr>allowed = True, remaining = max_limit L, total_limit = max_limit L, resetAt = now\<rparr>,
                  r(getKey L identifier := None))
         \<and> (r0 (getKey L identifier) = None \<longrightarrow>
              outcome (check L r0 now identifier) =
              outcome (check L (r(getKey L identifier := None)) now identifier))"
proof (intro conjI impI)
  show "reset L r t identifier = Inr ((), r(getKey L identifier := None))"
    by (simp add: reset_def del_def split: option.splits)
  have a: "check L (r(getKey L identifier := None)) now identifier =
      Inr (\<lparr>allowed = 0 < max_limit L, remaining = max 0 (max_limit L),
           total_limit = max_limit L, resetAt = now\<rparr>, r(getKey L identifier := None))"
    by (rule check_absent) simp
  with assms show "check L (r(getKey L identifier := None)) now identifier =
             Inr (\<lparr>allowed = True, remaining = max_limit L, total_limit = max_limit L, resetAt = now\<rparr>,
                  r(getKey L identifier := None))"
    by simp
  assume "r0 (getKey L identifier) = None"
  then have "check L r0 now identifier =
      Inr (\<lparr>allowed = 0 < max_limit L, remaining = max 0 (max_limit L),
           total_limit = max_limit L, resetAt = now\<rparr>, r0)"
    by (rule check_absent)
  with a show "outcome (check L r0 now identifier) =
        outcome (check L (r(getKey L identifier := None)) now identifier)"
    by simp
qed

theorem reset_then_check_is_fresh_witness:
  "0 < max_limit \<lparr>windowMs = 1000, max_limit = 1, keyPrefix = ''rl:''\<rparr>
   \<and> reset \<lparr>windowMs = 1000, max_limit = 1, keyPrefix = ''rl:''\<rparr>
        ((\<lambda>k. None)(''rl:u'' \<mapsto> \<lparr>members = [(''500-0-0.5'', 500)], expireAt = Some 1500\<rparr>)) 600 ''u''
      = Inr ((), \<lambda>k. None)
   \<and> reset \<lparr>windowMs = 1000, max_limit = 1, keyPrefix = ''rl:''\<rparr> (\<lambda>k. None) 600 ''u''
      = Inr ((), \<lambda>k. None)
   \<and> check \<lparr>windowMs = 1000, max_limit = 1, keyPrefix = ''rl:''\<rparr> (\<lambda>k. None) 700 ''u''
      = Inr (\<lparr>allowed = True, remaining = 1, total_limit = 1, resetAt = 700\<rparr>, \<lambda>k. None)
   \<and> (\<lambda>k. None :: zset option) ''rl:u'' = None"
proof -
  let ?L = "\<lparr>windowMs = 1000, max_limit = 1, keyPrefix = ''rl:''\<rparr>"
  let ?r = "(\<lambda>k. None)(''rl:u'' \<mapsto> \<lparr>members = [(''500-0-0.5'', 500)], expireAt = Some 1500\<rparr>)"
  have h: "0 < max_limit ?L" by simp
  have k: "getKey ?L ''u'' = ''rl:u''" by (simp add: getKey_def)
  have e: "?r(''rl:u'' := None) = (\<lambda>k. None)" by simp
  have e': "(\<lambda>k. None :: zset option)(''rl:u'' := None) = (\<lambda>k. None)" by simp
  from reset_then_check_is_fresh [OF h, of ?r 600 "''u''" 700 "\<lambda>k. None"]
       reset_then_check_is_fresh [OF h, of "\<lambda>k. None" 600 "''u''" 700 "\<lambda>k. None"]
  show ?thesis unfolding k e e' by simp
qed

section \<open>The shape of every result\<close>

text \<open>
  C8, as the specification states it: every result of \<open>check\<close> and of \<open>consume\<close>, for
  every identifier, store and cost \<open>\<ge> 0\<close>, has \<open>total = max\<close>, \<open>remaining \<ge> 0\<close> and
  \<open>remaining \<le> total\<close>. The last part fails for a limiter with a negative quota, which the
  constructor builds without complaint: with \<open>max = -1\<close> both operations report
  \<open>remaining = 0\<close> (the clamp of \<^verbatim>\<open>Math.max(0, ...)\<close>, and the constant of the rejection
  branch) next to \<open>total = -1\<close>.
\<close>

theorem negative_quota_remaining_exceeds_total_counterexample:
  "constructor \<lparr>opt_windowMs = Some 1000, opt_max = Some (- 1), opt_keyPrefix = None\<rparr>
     = Inr \<lparr>windowMs = 1000, max_limit = - 1, keyPrefix = ''rl:''\<rparr>
   \<and> check \<lparr>windowMs = 1000, max_limit = - 1, keyPrefix = ''rl:''\<rparr> (\<lambda>k. None) 600 ''u''
     = Inr (\<lparr>allowed = False, remaining = 0, total_limit = - 1, resetAt = 600\<rparr>, \<lambda>k. None)
   \<and> consume \<lparr>windowMs = 1000, max_limit = - 1, keyPrefix = ''rl:''\<rparr> (\<lambda>k. None) 600 ''u'' 1
        (\<lambda>i. ''0.25'')
     = Inr (\<lparr>allowed = False, remaining = 0, total_limit = - 1, resetAt = 600\<rparr>, \<lambda>k. None)
   \<and> (case check \<lparr>windowMs = 1000, max_limit = - 1, keyPrefix = ''rl:''\<rparr> (\<lambda>k. None) 600 ''u'' of
         Inl e \<Rightarrow> False
       | Inr (res, r') \<Rightarrow> \<not> remaining res \<le> total_limit res)
   \<and> (case consume \<lparr>windowMs = 1000, max_limit = - 1, keyPrefix = ''rl:''\<rparr> (\<lambda>k. None) 600 ''u'' 1
              (\<lambda>i. ''0.25'') of
         Inl e \<Rightarrow> False
       | Inr (res, r') \<Rightarrow> \<not> remaining res \<le> total_limit res)"
proof -
  let ?L = "\<lparr>windowMs = 1000, max_limit = - 1, keyPrefix = ''rl:''\<rparr>"
  have c: "countAfterTrim ?L (\<lambda>k. None) 600 ''u'' = 0" by (simp add: countAfterTrim_absent)
  have t: "trimmed ?L (\<lambda>k. None) 600 ''u'' = (\<lambda>k. None)" by (simp add: trimmed_absent)
  have ch: "check ?L (\<lambda>k. None) 600 ''u''
     = Inr (\<lparr>allowed = False, remaining = 0, total_limit = - 1, resetAt = 600\<rparr>, \<lambda>k. None)"
    by (simp add: check_absent)
  have "max_limit ?L \<le> countAfterTrim ?L (\<lambda>k. None) 600 ''u''" by (simp add: c)
  from consume_reject [OF this, of 1 "\<lambda>i. ''0.25''"]
  have co: "consume ?L (\<lambda>k. None) 600 ''u'' 1 (\<lambda>i. ''0.25'')
     = Inr (\<lparr>allowed = False, remaining = 0, total_limit = - 1, resetAt = 600\<rparr>, \<lambda>k. None)"
    by (simp add: t pttl_absent)
  show ?thesis by (simp add: ch co constructor_value)
qed

text \<open>
  C8, amended: for a limiter whose quota is \<open>max \<ge> 0\<close>, and a cost \<open>\<ge> 0\<close>, every result
  of \<open>check\<close> and of \<open>consume\<close> has \<open>total = max\<close> and \<open>0 \<le> remaining \<le> total\<close>; in
  \<open>check\<close>, \<open>remaining = max(0, max - count)\<close> and \<open>allowed = (count < max)\<close> for the count
  read after the trim.
\<close>

theorem results_within_quota:
  assumes "0 \<le> max_limit L" and "0 \<le> cost"
  shows "(case check L r now identifier of
            Inl e \<Rightarrow> False
          | Inr (res, r') \<Rightarrow>
              total_limit res = max_limit L \<and> 0 \<le> remaining res \<and> remaining res \<le> total_limit res
              \<and> remaining res = max 0 (max_limit L - countAfterTrim L r now identifier)
              \<and> allowed res = (countAfterTrim L r now identifier < max_limit L))
       \<and> (case consume L r now identifier cost rnd of
            Inl e \<Rightarrow> False
          | Inr (res, r') \<Rightarrow>
              total_limit res = max_limit L \<and> 0 \<le> remaining res \<and> remaining res \<le> total_limit res)"
proof
  have c: "0 \<le> countAfterTrim L r now identifier" by (rule countAfterTrim_nonneg)
  with assms show "case check L r now identifier of
            Inl e \<Rightarrow> False
          | Inr (res, r') \<Rightarrow>
              total_limit res = max_limit L \<and> 0 \<le> remaining res \<and> remaining res \<le> total_limit res
              \<and> remaining res = max 0 (max_limit L - countAfterTrim L r now identifier)
              \<and> allowed res = (countAfterTrim L r now identifier < max_limit L)"
    by (simp add: check_unfold)
  show "case consume L r now identifier cost rnd of
            Inl e \<Rightarrow> False
          | Inr (res, r') \<Rightarrow>
              total_limit res = max_limit L \<and> 0 \<le> remaining res \<and> remaining res \<le> total_limit res"
  proof (cases "countAfterTrim L r now identifier < max_limit L")
    case True
    with assms c show ?thesis by (simp add: consume_admit)
  next
    case False
    with assms show ?thesis by (simp add: consume_reject)
  qed
qed

theorem results_within_quota_witness:
  "0 \<le> max_limit \<lparr>windowMs = 1000, max_limit = 3, keyPrefix = ''rl:''\<rparr> \<and> (0::int) \<le> 5
   \<and> (case check \<lparr>windowMs = 1000, max_limit = 3, keyPrefix = ''rl:''\<rparr> (\<lambda>k. None) 600 ''u'' of
         Inl e \<Rightarrow> False
       | Inr (res, r') \<Rightarrow>
           total_limit res = 3 \<and> 0 \<le> remaining res \<and> remaining res \<le> total_limit res
           \<and> remaining res = 3 \<and> allowed res)
   \<and> (case consume \<lparr>windowMs = 1000, max_limit = 3, keyPrefix = ''rl:''\<rparr> (\<lambda>k. None) 600 ''u'' 5
              (\<lambda>i. ''0.25'') of
         Inl e \<Rightarrow> False
       | Inr (res, r') \<Rightarrow>
           total_limit res = 3 \<and> 0 \<le> remaining res \<and> remaining res \<le> total_limit res)"
proof -
  let ?L = "\<lparr>windowMs = 1000, max_limit = 3, keyPrefix = ''rl:''\<rparr>"
  have h1: "0 \<le> max_limit ?L" and h2: "(0::int) \<le> 5" by simp_all
  have c: "countAfterTrim ?L (\<lambda>k. None) 600 ''u'' = 0" by (simp add: countAfterTrim_absent)
  from results_within_quota [OF h1 h2, of "\<lambda>k. None" 600 "''u''" "\<lambda>i. ''0.25''"]
  show ?thesis by (auto simp: c split: sum.splits prod.splits)
qed

section \<open>Falsy options\<close>

text \<open>
  C9: the constructor takes each option through \<^verbatim>\<open>||\<close>, so a \<open>windowMs\<close> of \<open>0\<close>, a
  \<open>max\<close> of \<open>0\<close> and an empty \<open>keyPrefix\<close> are replaced by the defaults \<open>60000\<close>, \<open>100\<close>
  and \<^verbatim>\<open>rl:\<close>: the limiter built from them is the limiter built from the defaults. In
  particular a limiter configured with \<open>max = 0\<close> has the quota \<open>100\<close>, and on an unused
  identifier \<open>consume\<close> admits the request and reports \<open>remaining = 99\<close> of \<open>100\<close>.
\<close>

theorem constructor_falsy_defaults:
  "constructor (options\<lparr>opt_windowMs := Some 0\<rparr>) = constructor (options\<lparr>opt_windowMs := Some 60000\<rparr>)
   \<and> constructor (options\<lparr>opt_max := Some 0\<rparr>) = constructor (options\<lparr>opt_max := Some 100\<rparr>)
   \<and> constructor (options\<lparr>opt_keyPrefix := Some ''''\<rparr>) = constructor (options\<lparr>opt_keyPrefix := Some ''rl:''\<rparr>)
   \<and> constructor \<lparr>opt_windowMs = Some 0, opt_max = Some 0, opt_keyPrefix = Some ''''\<rparr>
       = Inr \<lparr>windowMs = 60000, max_limit = 100, keyPrefix = ''rl:''\<rparr>
   \<and> (case constructor \<lparr>opt_windowMs = w, opt_max = Some 0, opt_keyPrefix = p\<rparr> of
        Inl e \<Rightarrow> False
      | Inr L \<Rightarrow>
          max_limit L = 100 \<and>
          outcome (consume L (\<lambda>k. None) now identifier 1 rnd) =
            Inr \<lparr>allowed = True, remaining = 99, total_limit = 100, resetAt = now + windowMs L\<rparr>)"
  by (simp add: constructor_def num_or_def str_or_def consume_admit countAfterTrim_absent)

section \<open>An admitted \<open>consume\<close>\<close>

text \<open>
  C5: when the count read after the trim is below \<open>max\<close>, \<open>consume(identifier, cost)\<close>
  returns \<open>allowed = true\<close>, \<open>remaining = max(0, max - count - cost)\<close> and
  \<open>resetAt = now + windowMs\<close>, and the record afterwards holds the entries the trim left
  followed by \<open>cost\<close> new ones, the \<open>i\<close>-th scored \<open>now + i\<close> under the member
  \<^verbatim>\<open>`${now}-${i}-${Math.random()}`\<close>, with the expiry \<open>now + windowMs\<close>. The new members
  differ from one another whatever the random source gives, since the index is part of
  them; that they differ from the members already stored is what the random component is
  for, and is assumed here. The window is \<open>> 0\<close>, as the data model has it.
\<close>

theorem admitted_consume_records_cost_entries:
  assumes "countAfterTrim L r now identifier < max_limit L"
    and "0 < windowMs L"
    and "fst ` set (newEntries now rnd cost) \<inter>
         fst ` set (entries now (trimmed L r now identifier) (getKey L identifier)) = {}"
  shows "consume L r now identifier cost rnd =
     Inr (\<lparr>allowed = True,
           remaining = max 0 (max_limit L - countAfterTrim L r now identifier - cost),
           total_limit = max_limit L,
           resetAt = now + windowMs L\<rparr>,
          (let es = entries now (trimmed L r now identifier) (getKey L identifier) @
                    newEntries now rnd cost
           in if es = [] then trimmed L r now identifier
              else (trimmed L r now identifier)
                     (getKey L identifier \<mapsto> \<lparr>members = es, expireAt = Some (now + windowMs L)\<rparr>)))
     \<and> newEntries now rnd cost = map (\<lambda>i. (token now i (rnd i), now + int i)) [0..<nat cost]
     \<and> length (newEntries now rnd cost) = nat cost
     \<and> distinct (map fst (newEntries now rnd cost))"
  using consume_admit_state [OF assms] distinct_newEntries [of now rnd cost]
  by (simp add: length_newEntries) (simp add: newEntries_def)

lemma newEntries_600_2:
  "newEntries 600 (\<lambda>i. ''0.25'') 2 = [(''600-0-0.25'', 600), (''600-1-0.25'', 601)]"
  by code_simp

theorem admitted_consume_records_cost_entries_witness:
  "countAfterTrim \<lparr>windowMs = 1000, max_limit = 3, keyPrefix = ''rl:''\<rparr>
      ((\<lambda>k. None)(''rl:u'' \<mapsto> \<lparr>members = [(''500-0-0.5'', 500)], expireAt = Some 1500\<rparr>)) 600 ''u''
     < max_limit \<lparr>windowMs = 1000, max_limit = 3, keyPrefix = ''rl:''\<rparr>
   \<and> 0 < windowMs \<lparr>windowMs = 1000, max_limit = 3, keyPrefix = ''rl:''\<rparr>
   \<and> fst ` set (newEntries 600 (\<lambda>i. ''0.25'') 2) \<inter>
       fst ` set (entries 600
         (trimmed \<lparr>windowMs = 1000, max_limit = 3, keyPrefix = ''rl:''\<rparr>
           ((\<lambda>k. None)(''rl:u'' \<mapsto> \<lparr>members = [(''500-0-0.5'', 500)], expireAt = Some 1500\<rparr>)) 600 ''u'')
         (getKey \<lparr>windowMs = 1000, max_limit = 3, keyPrefix = ''rl:''\<rparr> ''u'')) = {}
   \<and> consume \<lparr>windowMs = 1000, max_limit = 3, keyPrefix = ''rl:''\<rparr>
        ((\<lambda>k. None)(''rl:u'' \<mapsto> \<lparr>members = [(''500-0-0.5'', 500)], expireAt = Some 1500\<rparr>)) 600 ''u'' 2
        (\<lambda>i. ''0.25'')
      = Inr (\<lparr>allowed = True, remaining = 0, total_limit = 3, resetAt = 1600\<rparr>,
             (\<lambda>k. None)(''rl:u'' \<mapsto>
                \<lparr>members = [(''500-0-0.5'', 500), (''600-0-0.25'', 600), (''600-1-0.25'', 601)],
                 expireAt = Some 1600\<rparr>))"
proof -
  let ?L = "\<lparr>windowMs = 1000, max_limit = 3, keyPrefix = ''rl:''\<rparr>"
  let ?z = "\<lparr>members = [(''500-0-0.5'', 500)], expireAt = Some 1500\<rparr>"
  let ?r = "(\<lambda>k. None)(''rl:u'' \<mapsto> ?z)"
  have k: "getKey ?L ''u'' = ''rl:u''" by (simp add: getKey_def)
  have t: "trimmed ?L ?r 600 ''u'' = ?r"
    by (rule trimmed_keep_all [where z = ?z]) (simp_all add: lookupKey_def k)
  have e: "entries 600 ?r ''rl:u'' = [(''500-0-0.5'', 500)]"
    by (simp add: entries_def lookupKey_def)
  have c: "countAfterTrim ?L ?r 600 ''u'' = 1"
    by (simp add: countAfterTrim_def t zcard_entries e k)
  have h1: "countAfterTrim ?L ?r 600 ''u'' < max_limit ?L" by (simp add: c)
  have h2: "0 < windowMs ?L" by simp
  have h3: "fst ` set (newEntries 600 (\<lambda>i. ''0.25'') 2) \<inter>
            fst ` set (entries 600 (trimmed ?L ?r 600 ''u'') (getKey ?L ''u'')) = {}"
    by (simp add: t k e newEntries_600_2)
  from admitted_consume_records_cost_entries [OF h1 h2 h3] h1 h2 h3 show ?thesis
    by (simp add: t c k e newEntries_600_2)
qed

section \<open>A zero-cost \<open>consume\<close>\<close>

text \<open>
  C10: when the count read after the trim is below \<open>max\<close>, \<open>consume(identifier, 0)\<close>
  is admitted with \<open>remaining = max(0, max - count)\<close> and inserts nothing: the members of
  the record are those the trim left. The write batch still holds its \<^verbatim>\<open>PEXPIRE\<close>, so
  the record's expiry becomes \<open>now + windowMs\<close> (for a window \<open>> 0\<close>, as the data model
  has it). When the trim left no record there is none to extend, and the store stays as
  the trim left it.
\<close>

theorem zero_cost_consume_extends_expiry:
  assumes "countAfterTrim L r now identifier < max_limit L" and "0 < windowMs L"
  shows "consume L r now identifier 0 rnd =
     Inr (\<lparr>allowed = True,
           remaining = max 0 (max_limit L - countAfterTrim L r now identifier),
           total_limit = max_limit L,
           resetAt = now + windowMs L\<rparr>,
          (case trimmed L r now identifier (getKey L identifier) of
             None \<Rightarrow> trimmed L r now identifier
           | Some z \<Rightarrow> (trimmed L r now identifier)
                         (getKey L identifier \<mapsto> z\<lparr>expireAt := Some (now + windowMs L)\<rparr>)))"
  using consume_admit_no_entries [OF assms, of 0 rnd] by simp

theorem zero_cost_consume_extends_expiry_witness:
  "countAfterTrim \<lparr>windowMs = 1000, max_limit = 3, keyPrefix = ''rl:''\<rparr>
      ((\<lambda>k. None)(''rl:u'' \<mapsto> \<lparr>members = [(''500-0-0.5'', 500)], expireAt = Some 1500\<rparr>)) 600 ''u''
     < max_limit \<lparr>windowMs = 1000, max_limit = 3, keyPrefix = ''rl:''\<rparr>
   \<and> 0 < windowMs \<lparr>windowMs = 1000, max_limit = 3, keyPrefix = ''rl:''\<rparr>
   \<and> consume \<lparr>windowMs = 1000, max_limit = 3, keyPrefix = ''rl:''\<rparr>
        ((\<lambda>k. None)(''rl:u'' \<mapsto> \<lparr>members = [(''500-0-0.5'', 500)], expireAt = Some 1500\<rparr>)) 600 ''u'' 0
        (\<lambda>i. ''0.25'')
      = Inr (\<lparr>allowed = True, remaining = 2, total_limit = 3, resetAt = 1600\<rparr>,
             (\<lambda>k. None)(''rl:u'' \<mapsto> \<lparr>members = [(''500-0-0.5'', 500)], expireAt = Some 1600\<rparr>))"
proof -
  let ?L = "\<lparr>windowMs = 1000, max_limit = 3, keyPrefix = ''rl:''\<rparr>"
  let ?z = "\<lparr>members = [(''500-0-0.5'', 500)], expireAt = Some 1500\<rparr>"
  let ?r = "(\<lambda>k. None)(''rl:u'' \<mapsto> ?z)"
  have k: "getKey ?L ''u'' = ''rl:u''" by (simp add: getKey_def)
  have t: "trimmed ?L ?r 600 ''u'' = ?r"
    by (rule trimmed_keep_all [where z = ?z]) (simp_all add: lookupKey_def k)
  have c: "countAfterTrim ?L ?r 600 ''u'' = 1"
    by (simp add: countAfterTrim_def t zcard_def lookupKey_def k)
  have h1: "countAfterTrim ?L ?r 600 ''u'' < max_limit ?L" by (simp add: c)
  have h2: "0 < windowMs ?L" by simp
  from zero_cost_consume_extends_expiry [OF h1 h2, of "\<lambda>i. ''0.25''"] h1 h2 show ?thesis
    by (simp add: t c k)
qed

section \<open>Invalid arguments\<close>

text \<open>
  C3, as the specification states it: a limiter built with a non-positive \<open>windowMs\<close> or
  a negative \<open>max\<close>, and a \<open>consume\<close> with a negative cost, are rejected with
  \<open>InvalidConfiguration\<close>, and no invalid value is silently replaced. The source validates
  nothing: the constructor returns a limiter with \<open>windowMs = -5\<close> and \<open>max = -1\<close>,
  it replaces a \<open>windowMs\<close> of \<open>0\<close> by \<open>60000\<close>, and \<open>consume\<close> with the cost \<open>-2\<close>
  returns \<open>allowed = true\<close> with \<open>remaining = 5\<close> of a quota of \<open>3\<close>.
\<close>

theorem invalid_arguments_accepted_counterexample:
  "constructor \<lparr>opt_windowMs = Some (- 5), opt_max = Some (- 1), opt_keyPrefix = None\<rparr>
     = Inr \<lparr>windowMs = - 5, max_limit = - 1, keyPrefix = ''rl:''\<rparr>
   \<and> constructor \<lparr>opt_windowMs = Some (- 5), opt_max = Some (- 1), opt_keyPrefix = None\<rparr>
     \<noteq> Inl InvalidConfiguration
   \<and> constructor \<lparr>opt_windowMs = Some 0, opt_max = Some 3, opt_keyPrefix = None\<rparr>
     = Inr \<lparr>windowMs = 60000, max_limit = 3, keyPrefix = ''rl:''\<rparr>
   \<and> consume \<lparr>windowMs = 1000, max_limit = 3, keyPrefix = ''rl:''\<rparr> (\<lambda>k. None) 600 ''u'' (- 2)
        (\<lambda>i. ''0.25'')
     = Inr (\<lparr>allowed = True, remaining = 5, total_limit = 3, resetAt = 1600\<rparr>, \<lambda>k. None)
   \<and> consume \<lparr>windowMs = 1000, max_limit = 3, keyPrefix = ''rl:''\<rparr> (\<lambda>k. None) 600 ''u'' (- 2)
        (\<lambda>i. ''0.25'')
     \<noteq> Inl InvalidConfiguration"
proof -
  let ?L = "\<lparr>windowMs = 1000, max_limit = 3, keyPrefix = ''rl:''\<rparr>"
  have c: "countAfterTrim ?L (\<lambda>k. None) 600 ''u'' = 0" by (simp add: countAfterTrim_absent)
  have t: "trimmed ?L (\<lambda>k. None) 600 ''u'' = (\<lambda>k. None)" by (simp add: trimmed_absent)
  have "consume ?L (\<lambda>k. None) 600 ''u'' (- 2) (\<lambda>i. ''0.25'')
     = Inr (\<lparr>allowed = True, remaining = 5, total_limit = 3, resetAt = 1600\<rparr>, \<lambda>k. None)"
    by (simp add: consume_negative_cost c t pexpire_absent case_prod_beta)
  then show ?thesis by (simp add: constructor_value)
qed

text \<open>
  C3, amended: the constructor always returns a limiter; it keeps a negative \<open>windowMs\<close>
  or \<open>max\<close> as given and replaces only a value of \<open>0\<close> or an absent one by the default.
  \<open>consume\<close> with a negative cost returns a result: rejected when the count read after
  the trim has reached \<open>max\<close>, and otherwise admitted with
  \<open>remaining = max(0, max - count - cost)\<close>, its write batch holding no \<^verbatim>\<open>ZADD\<close>, only
  the \<^verbatim>\<open>PEXPIRE\<close>.
\<close>

theorem no_argument_is_validated:
  assumes "cost < 0"
  shows "constructor options =
     Inr \<lparr>windowMs = (case opt_windowMs options of
                         None \<Rightarrow> 60000 | Some w \<Rightarrow> if w = 0 then 60000 else w),
          max_limit = (case opt_max options of
                         None \<Rightarrow> 100 | Some m \<Rightarrow> if m = 0 then 100 else m),
          keyPrefix = (case opt_keyPrefix options of
                         None \<Rightarrow> ''rl:'' | Some p \<Rightarrow> if p = [] then ''rl:'' else p)\<rparr>
   \<and> consume L r now identifier cost rnd =
     (if countAfterTrim L r now identifier < max_limit L
      then Inr (\<lparr>allowed = True,
                 remaining = max 0 (max_limit L - countAfterTrim L r now identifier - cost),
                 total_limit = max_limit L,
                 resetAt = now + windowMs L\<rparr>,
                snd (exec now [PEXPIRE (getKey L identifier) (windowMs L)]
                       (trimmed L r now identifier)))
      else Inr (\<lparr>allowed = False, remaining = 0, total_limit = max_limit L,
                 resetAt = now + max (pttl now (trimmed L r now identifier) (getKey L identifier)) 0\<rparr>,
                trimmed L r now identifier))"
  using consume_negative_cost [OF assms] constructor_value by simp

theorem no_argument_is_validated_witness:
  "(- 2 :: int) < 0
   \<and> constructor \<lparr>opt_windowMs = Some (- 5), opt_max = Some (- 1), opt_keyPrefix = Some ''x:''\<rparr>
     = Inr \<lparr>windowMs = - 5, max_limit = - 1, keyPrefix = ''x:''\<rparr>
   \<and> consume \<lparr>windowMs = 1000, max_limit = 3, keyPrefix = ''rl:''\<rparr> (\<lambda>k. None) 600 ''u'' (- 2)
        (\<lambda>i. ''0.25'')
     = Inr (\<lparr>allowed = True, remaining = 5, total_limit = 3, resetAt = 1600\<rparr>, \<lambda>k. None)"
proof -
  let ?L = "\<lparr>windowMs = 1000, max_limit = 3, keyPrefix = ''rl:''\<rparr>"
  have h: "(- 2 :: int) < 0" by simp
  have c: "countAfterTrim ?L (\<lambda>k. None) 600 ''u'' = 0" by (simp add: countAfterTrim_absent)
  have t: "trimmed ?L (\<lambda>k. None) 600 ''u'' = (\<lambda>k. None)" by (simp add: trimmed_absent)
  from no_argument_is_validated [OF h,
      of "\<lparr>opt_windowMs = Some (- 5), opt_max = Some (- 1), opt_keyPrefix = Some ''x:''\<rparr>"
         ?L "\<lambda>k. None" 600 "''u''" "\<lambda>i. ''0.25''"]
  show ?thesis by (simp add: c t pexpire_absent case_prod_beta)
qed

section \<open>Monotonic admission\<close>

text \<open>
  C4: for an identifier without a record and a quota \<open>max > 0\<close>, \<open>max + 1\<close> sequential
  calls \<open>consume(id, 1)\<close> within one window (any two of the call times are less than
  \<open>windowMs\<close> apart) give \<open>allowed = true\<close> for the first \<open>max\<close> calls, with \<open>remaining\<close>
  going down from \<open>max - 1\<close> to \<open>0\<close> one by one, and \<open>allowed = false\<close> with
  \<open>remaining = 0\<close> for the last. The members the calls generate are taken to be distinct,
  which is what their timestamp and random component are for. The witness is the example
  of the specification: \<open>windowMs = 1000\<close>, \<open>max = 2\<close>, calls at the times 0, 100 and 200.
\<close>

theorem monotonic_admission:
  assumes "0 < max_limit L" and "0 < windowMs L"
    and "r (getKey L ident) = None"
    and "length calls = nat (max_limit L) + 1"
    and "\<forall>c \<in> set calls. \<forall>c' \<in> set calls. fst c' - windowMs L < fst c"
    and "distinct (map (\<lambda>c. token (fst c) 0 (snd c 0)) calls)"
  shows "case consumeSeq L r ident calls of
           Inl err \<Rightarrow> False
         | Inr (ress, r') \<Rightarrow>
             map allowed ress = replicate (nat (max_limit L)) True @ [False]
             \<and> map remaining ress = map (\<lambda>k. max_limit L - 1 - int k) [0..<nat (max_limit L)] @ [0]"
proof -
  have st: "r (getKey L ident) =
      (if ([] :: (string \<times> int) list) = [] then None else Some \<lparr>members = [], expireAt = Some 0\<rparr>)"
    using assms(3) by simp
  have "outcome (consumeSeq L r ident calls) =
          Inr (expected (max_limit L) (windowMs L) (length ([] :: (string \<times> int) list)) 0 (map fst calls))"
    by (rule consumeSeq_expected
          [where r = r and L = L and ident = "ident" and es = "[]" and e = 0 and calls = calls,
           OF assms(2) assms(1) st _ _ assms(5) _ assms(6)]) simp_all
  from outcome_Inr_D [OF this] obtain r' where
    run: "consumeSeq L r ident calls = Inr (expected (max_limit L) (windowMs L) 0 0 (map fst calls), r')"
    by auto
  have "0 \<le> nat (max_limit L)" and "length (map fst calls) = nat (max_limit L) - 0 + 1"
    using assms(4) by simp_all
  from expected_closed_form [OF this, of "windowMs L" 0] show ?thesis
    by (simp add: run)
qed

lemma tokens_example:
  "token 0 0 ''0.5'' = ''0-0-0.5''" "token 100 0 ''0.25'' = ''100-0-0.25''"
  "token 200 0 ''0.75'' = ''200-0-0.75''"
  by code_simp+

theorem monotonic_admission_witness:
  "0 < max_limit \<lparr>windowMs = 1000, max_limit = 2, keyPrefix = ''rl:''\<rparr>
   \<and> 0 < windowMs \<lparr>windowMs = 1000, max_limit = 2, keyPrefix = ''rl:''\<rparr>
   \<and> (\<lambda>k. None :: zset option) (getKey \<lparr>windowMs = 1000, max_limit = 2, keyPrefix = ''rl:''\<rparr> ''u'') = None
   \<and> length [(0 :: int, \<lambda>i :: nat. ''0.5''), (100, \<lambda>i. ''0.25''), (200, \<lambda>i. ''0.75'')]
       = nat (max_limit \<lparr>windowMs = 1000, max_limit = 2, keyPrefix = ''rl:''\<rparr>) + 1
   \<and> list_all (\<lambda>c. list_all
          (\<lambda>c'. fst c' - windowMs \<lparr>windowMs = 1000, max_limit = 2, keyPrefix = ''rl:''\<rparr> < fst c)
          [(0 :: int, \<lambda>i :: nat. ''0.5''), (100, \<lambda>i. ''0.25''), (200, \<lambda>i. ''0.75'')])
        [(0 :: int, \<lambda>i :: nat. ''0.5''), (100, \<lambda>i. ''0.25''), (200, \<lambda>i. ''0.75'')]
   \<and> distinct (map (\<lambda>c. token (fst c) 0 (snd c 0))
                 [(0 :: int, \<lambda>i :: nat. ''0.5''), (100, \<lambda>i. ''0.25''), (200, \<lambda>i. ''0.75'')])
   \<and> (case consumeSeq \<lparr>windowMs = 1000, max_limit = 2, keyPrefix = ''rl:''\<rparr> (\<lambda>k. None) ''u''
              [(0, \<lambda>i. ''0.5''), (100, \<lambda>i. ''0.25''), (200, \<lambda>i. ''0.75'')] of
         Inl err \<Rightarrow> False
       | Inr (ress, r') \<Rightarrow>
           map allowed ress = [True, True, False] \<and> map remaining ress = [1, 0, 0])"
proof -
  let ?L = "\<lparr>windowMs = 1000, max_limit = 2, keyPrefix = ''rl:''\<rparr>"
  let ?calls = "[(0 :: int, \<lambda>i :: nat. ''0.5''), (100, \<lambda>i. ''0.25''), (200, \<lambda>i. ''0.75'')]"
  have h1: "0 < max_limit ?L" and h2: "0 < windowMs ?L" by simp_all
  have h3: "(\<lambda>k. None :: zset option) (getKey ?L ''u'') = None" by simp
  have h4: "length ?calls = nat (max_limit ?L) + 1" by simp
  have h5: "\<forall>c \<in> set ?calls. \<forall>c' \<in> set ?calls. fst c' - windowMs ?L < fst c" by simp
  have h6: "distinct (map (\<lambda>c. token (fst c) 0 (snd c 0)) ?calls)"
    by (simp add: tokens_example)
  have n: "nat (max_limit ?L) = 2" by simp
  have u: "[0..<2] = [0, Suc 0]" by (simp add: upt_rec)
  have rp: "replicate 2 True = [True, True]" by (simp add: numeral_2_eq_2)
  from monotonic_admission [of ?L "\<lambda>k. None" "''u''" ?calls, OF h1 h2 h3 h4 h5 h6]
  have "case consumeSeq ?L (\<lambda>k. None) ''u'' ?calls of
         Inl err \<Rightarrow> False
       | Inr (ress, r') \<Rightarrow>
           map allowed ress = [True, True, False] \<and> map remaining ress = [1, 0, 0]"
    unfolding n u rp by (auto simp del: consumeSeq.simps split: sum.splits prod.splits)
  moreover from h5 have "list_all (\<lambda>c. list_all (\<lambda>c'. fst c' - windowMs ?L < fst c) ?calls) ?calls"
    by simp
  ultimately show ?thesis using h1 h2 h3 h4 h6 by (intro conjI)
qed

section \<open>Cost and quota\<close>

text \<open>
  C1, as the specification states it: with \<open>max = 10\<close> and no record, \<open>consume(id, 5)\<close>
  is admitted with \<open>remaining = 5\<close>, and a following \<open>consume(id, 6)\<close> in the same window
  is rejected and leaves the recorded count at 5. The first half holds. The second does
  not: the guard of \<open>consume\<close> is \<^verbatim>\<open>currentCount >= this.max\<close>, the cost is not part of
  it, and the count 5 is below 10. The second call is admitted, reports
  \<open>remaining = max(0, 10 - 5 - 6) = 0\<close>, and raises the count to 11.
\<close>

theorem cost_not_compared_with_quota_counterexample:
  "case consume \<lparr>windowMs = 60000, max_limit = 10, keyPrefix = ''rl:''\<rparr> (\<lambda>k. None) 1000 ''u'' 5
          (\<lambda>i. ''0.5'') of
     Inl err \<Rightarrow> False
   | Inr (res1, r1) \<Rightarrow>
       allowed res1 \<and> remaining res1 = 5 \<and> zcard 1001 r1 ''rl:u'' = 5 \<and>
       (case consume \<lparr>windowMs = 60000, max_limit = 10, keyPrefix = ''rl:''\<rparr> r1 1001 ''u'' 6
               (\<lambda>i. ''0.75'') of
          Inl err \<Rightarrow> False
        | Inr (res2, r2) \<Rightarrow>
            allowed res2 \<and> remaining res2 = 0 \<and> zcard 1001 r2 ''rl:u'' = 11)"
proof -
  let ?L = "\<lparr>windowMs = 60000, max_limit = 10, keyPrefix = ''rl:''\<rparr>"
  have k: "getKey ?L ''u'' = ''rl:u''" by (simp add: getKey_def)
  have h: "max_limit ?L = 10" "0 < windowMs ?L" "(\<lambda>k. None :: zset option) (getKey ?L ''u'') = None"
    "(1000 :: int) \<le> 1001" "1001 - windowMs ?L < 1000"
    by simp_all
  let ?e1 = "newEntries 1000 (\<lambda>i. ''0.5'') 5" and ?e2 = "newEntries 1001 (\<lambda>i. ''0.75'') 6"
  let ?r1 = "(\<lambda>k. None)(''rl:u'' \<mapsto> \<lparr>members = ?e1, expireAt = Some 61000\<rparr>)"
  let ?r2 = "(\<lambda>k. None)(''rl:u'' \<mapsto> \<lparr>members = ?e1 @ ?e2, expireAt = Some 61001\<rparr>)"
  note two = two_consumes_5_6 [of ?L "\<lambda>k. None" "''u''" 1000 1001 "\<lambda>i. ''0.75''" "\<lambda>i. ''0.5''",
      OF h newEntries_example_disjoint]
  have c1: "consume ?L (\<lambda>k. None) 1000 ''u'' 5 (\<lambda>i. ''0.5'') =
      Inr (\<lparr>allowed = True, remaining = 5, total_limit = 10, resetAt = 61000\<rparr>, ?r1)"
    using two(1) by (simp add: k)
  have c2: "consume ?L ?r1 1001 ''u'' 6 (\<lambda>i. ''0.75'') =
      Inr (\<lparr>allowed = True, remaining = 0, total_limit = 10, resetAt = 61001\<rparr>, ?r2)"
    using two(2) by (simp add: k)
  have z1: "zcard 1001 ?r1 ''rl:u'' = 5" using two(3) by (simp add: k)
  have z2: "zcard 1001 ?r2 ''rl:u'' = 11" using two(4) by (simp add: k)
  show ?thesis by (simp add: c1 c2 z1 z2)
qed

text \<open>
  C1, amended: with \<open>max = 10\<close> and no record, \<open>consume(id, 5)\<close> is admitted with
  \<open>remaining = 5\<close> and records 5 entries; a following \<open>consume(id, 6)\<close> in the same
  window is admitted too, since the recorded count 5 is below \<open>max\<close>: it returns
  \<open>allowed = true\<close> with \<open>remaining = 0\<close> and the record then holds 11 entries. (The
  members of the second call are taken to differ from those of the first.)
\<close>

theorem consume_admits_while_count_below_max:
  assumes "max_limit L = 10" and "0 < windowMs L"
    and "r (getKey L ident) = None"
    and "t1 \<le> t2" and "t2 - windowMs L < t1"
    and "fst ` set (newEntries t2 rnd2 6) \<inter> fst ` set (newEntries t1 rnd1 5) = {}"
  shows "consume L r t1 ident 5 rnd1 =
           Inr (\<lparr>allowed = True, remaining = 5, total_limit = 10, resetAt = t1 + windowMs L\<rparr>,
                r(getKey L ident \<mapsto>
                    \<lparr>members = newEntries t1 rnd1 5, expireAt = Some (t1 + windowMs L)\<rparr>))
       \<and> consume L
           (r(getKey L ident \<mapsto>
                \<lparr>members = newEntries t1 rnd1 5, expireAt = Some (t1 + windowMs L)\<rparr>))
           t2 ident 6 rnd2 =
           Inr (\<lparr>allowed = True, remaining = 0, total_limit = 10, resetAt = t2 + windowMs L\<rparr>,
                r(getKey L ident \<mapsto>
                    \<lparr>members = newEntries t1 rnd1 5 @ newEntries t2 rnd2 6,
                     expireAt = Some (t2 + windowMs L)\<rparr>))
       \<and> zcard t2 (r(getKey L ident \<mapsto>
                    \<lparr>members = newEntries t1 rnd1 5, expireAt = Some (t1 + windowMs L)\<rparr>))
           (getKey L ident) = 5
       \<and> zcard t2 (r(getKey L ident \<mapsto>
                    \<lparr>members = newEntries t1 rnd1 5 @ newEntries t2 rnd2 6,
                     expireAt = Some (t2 + windowMs L)\<rparr>))
           (getKey L ident) = 11"
  using two_consumes_5_6 [of L r "ident" t1 t2 rnd2 rnd1, OF assms] by (intro conjI)

theorem consume_admits_while_count_below_max_witness:
  "max_limit \<lparr>windowMs = 60000, max_limit = 10, keyPrefix = ''rl:''\<rparr> = 10
   \<and> 0 < windowMs \<lparr>windowMs = 60000, max_limit = 10, keyPrefix = ''rl:''\<rparr>
   \<and> (\<lambda>k. None :: zset option) (getKey \<lparr>windowMs = 60000, max_limit = 10, keyPrefix = ''rl:''\<rparr> ''u'') = None
   \<and> (1000 :: int) \<le> 1001
   \<and> 1001 - windowMs \<lparr>windowMs = 60000, max_limit = 10, keyPrefix = ''rl:''\<rparr> < 1000
   \<and> fst ` set (newEntries 1001 (\<lambda>i. ''0.75'') 6) \<inter> fst ` set (newEntries 1000 (\<lambda>i. ''0.5'') 5) = {}
   \<and> consume \<lparr>windowMs = 60000, max_limit = 10, keyPrefix = ''rl:''\<rparr>
        ((\<lambda>k. None)(''rl:u'' \<mapsto>
           \<lparr>members = [(''1000-0-0.5'', 1000), (''1000-1-0.5'', 1001), (''1000-2-0.5'', 1002),
                        (''1000-3-0.5'', 1003), (''1000-4-0.5'', 1004)],
            expireAt = Some 61000\<rparr>))
        1001 ''u'' 6 (\<lambda>i. ''0.75'')
      = Inr (\<lparr>allowed = True, remaining = 0, total_limit = 10, resetAt = 61001\<rparr>,
             (\<lambda>k. None)(''rl:u'' \<mapsto>
               \<lparr>members = [(''1000-0-0.5'', 1000), (''1000-1-0.5'', 1001), (''1000-2-0.5'', 1002),
                            (''1000-3-0.5'', 1003), (''1000-4-0.5'', 1004),
                            (''1001-0-0.75'', 1001), (''1001-1-0.75'', 1002), (''1001-2-0.75'', 1003),
                            (''1001-3-0.75'', 1004), (''1001-4-0.75'', 1005), (''1001-5-0.75'', 1006)],
                expireAt = Some 61001\<rparr>))"
proof -
  let ?L = "\<lparr>windowMs = 60000, max_limit = 10, keyPrefix = ''rl:''\<rparr>"
  have k: "getKey ?L ''u'' = ''rl:u''" by (simp add: getKey_def)
  have h1: "max_limit ?L = 10" and h2: "0 < windowMs ?L"
    and h3: "(\<lambda>k. None :: zset option) (getKey ?L ''u'') = None"
    and h4: "(1000 :: int) \<le> 1001" and h5: "1001 - windowMs ?L < 1000"
    by simp_all
  note h6 = newEntries_example_disjoint
  from consume_admits_while_count_below_max
         [of ?L "\<lambda>k. None" "''u''" 1000 1001 "\<lambda>i. ''0.75''" "\<lambda>i. ''0.5''", OF h1 h2 h3 h4 h5 h6]
  have "consume ?L
        ((\<lambda>k. None)(''rl:u'' \<mapsto> \<lparr>members = newEntries 1000 (\<lambda>i. ''0.5'') 5, expireAt = Some 61000\<rparr>))
        1001 ''u'' 6 (\<lambda>i. ''0.75'')
      = Inr (\<lparr>allowed = True, remaining = 0, total_limit = 10, resetAt = 61001\<rparr>,
             (\<lambda>k. None)(''rl:u'' \<mapsto>
               \<lparr>members = newEntries 1000 (\<lambda>i. ''0.5'') 5 @ newEntries 1001 (\<lambda>i. ''0.75'') 6,
                expireAt = Some 61001\<rparr>))"
    unfolding k by simp
  then have "consume ?L
        ((\<lambda>k. None)(''rl:u'' \<mapsto>
           \<lparr>members = [(''1000-0-0.5'', 1000), (''1000-1-0.5'', 1001), (''1000-2-0.5'', 1002),
                        (''1000-3-0.5'', 1003), (''1000-4-0.5'', 1004)],
            expireAt = Some 61000\<rparr>))
        1001 ''u'' 6 (\<lambda>i. ''0.75'')
      = Inr (\<lparr>allowed = True, remaining = 0, total_limit = 10, resetAt = 61001\<rparr>,
             (\<lambda>k. None)(''rl:u'' \<mapsto>
               \<lparr>members = [(''1000-0-0.5'', 1000), (''1000-1-0.5'', 1001), (''1000-2-0.5'', 1002),
                            (''1000-3-0.5'', 1003), (''1000-4-0.5'', 1004),
                            (''1001-0-0.75'', 1001), (''1001-1-0.75'', 1002), (''1001-2-0.75'', 1003),
                            (''1001-3-0.75'', 1004), (''1001-4-0.75'', 1005), (''1001-5-0.75'', 1006)],
                expireAt = Some 61001\<rparr>))"
    unfolding newEntries_example by simp
  with h1 h2 h3 h4 h5 h6 show ?thesis by (intro conjI)
qed

end
